theory Spec2Isabelle
  imports Main "HOL-Library.Word"
begin

section \<open>Data model of the agent gateway\<close>

text \<open>
  The service \<open>AzureAIAgentService\<close> and the streaming endpoint are C#. Strings are
  modelled as \<open>string\<close> (a list of characters): one \<open>char\<close> stands for one C#
  \<open>char\<close>, restricted to the 8-bit range, and \<open>length\<close> is the C# \<open>Length\<close>.
  Every exception the code can raise is a value of \<open>exn\<close>; a fallible operation returns
  \<open>exn + 'a\<close> with \<open>Inl\<close> for the raised exception.
\<close>

type_synonym byte = "8 word"

text \<open>
  One entry of the error list built by \<open>ValidateImageDataUris\<close>. The source formats a
  message; each constructor keeps the data the message is formatted from:
  \<^item> \<open>TooManyImages n\<close>: "Too many images: n provided, maximum 5 allowed";
  \<^item> \<open>InvalidDataUriFormat k\<close>: "Image k: Invalid data URI format (must start with 'data:')";
  \<^item> \<open>MalformedDataUri k\<close>: "Image k: Malformed data URI structure";
  \<^item> \<open>UnsupportedMimeType k m\<close>: "Image k: Unsupported MIME type 'm' (allowed: ...)";
  \<^item> \<open>SizeExceeds k n\<close>: "Image k: Size ...MB exceeds maximum 5MB", for \<open>n\<close> decoded bytes;
  \<^item> \<open>InvalidBase64 k\<close>: "Image k: Invalid base64 encoding".
\<close>

datatype validation_error =
    TooManyImages nat
  | InvalidDataUriFormat nat
  | MalformedDataUri nat
  | UnsupportedMimeType nat string
  | SizeExceeds nat nat
  | InvalidBase64 nat

datatype exn =
    ObjectDisposedException
  | ArgumentException_MessageBlank
  | ArgumentException_InvalidImages "validation_error list"
  | ArgumentOutOfRangeException
  | FormatException
  | UriFormatException
  | OperationCanceledException
  | SemaphoreFullException
  | ProviderException string

datatype AgentVersion = AgentVersion string

record AgentRecord =
  Versions_Latest :: AgentVersion

record ResponseTokenUsage =
  InputTokenCount :: int
  OutputTokenCount :: int
  TotalTokenCount :: int

record UsageInfo =
  PromptTokens :: int
  CompletionTokens :: int
  TotalTokens :: int

datatype StreamingResponseUpdate =
    OutputTextDeltaUpdate string
  | CompletedUpdate ResponseTokenUsage
  | OtherUpdate

datatype ResponseContentPart =
    InputTextPart string
  | InputImagePart_Bytes "byte list" string
  | InputImagePart_Uri string

text \<open>
  The remote calls the service makes on \<open>_projectClient\<close>. Every operation of the model
  returns, besides its result, the list of remote calls it made, in order.
\<close>

datatype provider_call =
    Agents_GetAgent string
  | CreateProjectConversation "(string \<times> string) list"
  | CreateResponseStreaming AgentVersion string "ResponseContentPart list"

text \<open>
  The fields of \<open>AzureAIAgentService\<close> that the modelled operations read or write.
  \<open>_agentLock\<close> is a semaphore with one permit that \<open>GetAgentAsync\<close> takes and gives back
  (in \<open>finally\<close>) within one call; it appears in the interleaving model of the concurrency
  section and is always free between the calls of a sequential run.
\<close>

record AzureAIAgentService =
  agentId :: string
  latestAgentVersion :: "AgentVersion option"
  lastRunUsage :: "UsageInfo option"
  disposed :: bool

text \<open>
  What the completion provider answers during one call: the answer to
  \<open>Agents.GetAgentAsync\<close>, to \<open>CreateProjectConversationAsync\<close>, and the response stream
  of \<open>CreateResponseStreamingAsync\<close> as the updates it delivers followed by either normal
  completion (\<open>None\<close>) or an exception raised by the iteration (\<open>Some e\<close>).
\<close>

record provider =
  agentFetch :: "exn + AgentRecord"
  newConversation :: "exn + string"
  responseUpdates :: "StreamingResponseUpdate list"
  responseFailure :: "exn option"

section \<open>String operations of the runtime\<close>

text \<open>\<open>StartsWith\<close> as the ordinal prefix test, \<open>IndexOf\<close> with \<open>-1\<close> for a miss.\<close>

definition StartsWith :: "string \<Rightarrow> string \<Rightarrow> bool" where
  "StartsWith s p = (take (length p) s = p)"

fun IndexOf :: "string \<Rightarrow> char \<Rightarrow> int" where
  "IndexOf [] c = - 1"
| "IndexOf (x # xs) c =
     (if x = c then 0 else (let r = IndexOf xs c in if r < 0 then - 1 else r + 1))"

text \<open>The range operators \<open>s[a..b]\<close> and \<open>s[a..]\<close>, which raise when out of range.\<close>

definition Range :: "string \<Rightarrow> int \<Rightarrow> int \<Rightarrow> exn + string" where
  "Range s a b =
     (if 0 \<le> a \<and> a \<le> b \<and> b \<le> int (length s)
      then Inr (take (nat (b - a)) (drop (nat a) s))
      else Inl ArgumentOutOfRangeException)"

definition RangeFrom :: "string \<Rightarrow> int \<Rightarrow> exn + string" where
  "RangeFrom s a =
     (if 0 \<le> a \<and> a \<le> int (length s) then Inr (drop (nat a) s)
      else Inl ArgumentOutOfRangeException)"

definition ToLowerChar :: "char \<Rightarrow> char" where
  "ToLowerChar c =
     (let n = (of_char c :: nat) in if 65 \<le> n \<and> n \<le> 90 then char_of (n + 32) else c)"

definition ToLowerInvariant :: "string \<Rightarrow> string" where
  "ToLowerInvariant s = map ToLowerChar s"

text \<open>\<open>char.IsWhiteSpace\<close> on the 8-bit range: U+0009 to U+000D, U+0020, U+0085, U+00A0.\<close>

definition IsWhiteSpace :: "char \<Rightarrow> bool" where
  "IsWhiteSpace c =
     (let n = (of_char c :: nat) in (9 \<le> n \<and> n \<le> 13) \<or> n = 32 \<or> n = 133 \<or> n = 160)"

definition IsNullOrWhiteSpace :: "string \<Rightarrow> bool" where
  "IsNullOrWhiteSpace s = list_all IsWhiteSpace s"

definition IsNullOrEmpty :: "string option \<Rightarrow> bool" where
  "IsNullOrEmpty s = (case s of None \<Rightarrow> True | Some t \<Rightarrow> t = [])"

subsection \<open>Base64 decoding\<close>

text \<open>
  \<open>Convert.FromBase64String\<close>: white space (space, tab, CR, LF) is skipped; what remains
  must be groups of four characters of the base64 alphabet, the last group may end in
  one or two \<open>=\<close>; anything else raises \<open>FormatException\<close> (here \<open>None\<close>). The empty
  string decodes to the empty array.
\<close>

definition Base64Value :: "char \<Rightarrow> nat option" where
  "Base64Value c =
     (let n = (of_char c :: nat) in
      if 65 \<le> n \<and> n \<le> 90 then Some (n - 65)
      else if 97 \<le> n \<and> n \<le> 122 then Some (n - 71)
      else if 48 \<le> n \<and> n \<le> 57 then Some (n + 4)
      else if n = 43 then Some 62
      else if n = 47 then Some 63
      else None)"

definition IsBase64WhiteSpace :: "char \<Rightarrow> bool" where
  "IsBase64WhiteSpace c =
     (let n = (of_char c :: nat) in n = 32 \<or> n = 9 \<or> n = 10 \<or> n = 13)"

definition DecodeGroup :: "char \<Rightarrow> char \<Rightarrow> char \<Rightarrow> char \<Rightarrow> bool \<Rightarrow> byte list option" where
  "DecodeGroup a b c d final =
     (case (Base64Value a, Base64Value b) of
        (Some x, Some y) \<Rightarrow>
          (if final \<and> c = CHR ''='' \<and> d = CHR ''=''
           then Some [of_nat ((x * 64 + y) div 16)]
           else (case Base64Value c of
                   None \<Rightarrow> None
                 | Some z \<Rightarrow>
                     (if final \<and> d = CHR ''=''
                      then Some [of_nat ((x * 4096 + y * 64 + z) div 1024),
                                 of_nat ((x * 4096 + y * 64 + z) div 4)]
                      else (case Base64Value d of
                              None \<Rightarrow> None
                            | Some w \<Rightarrow>
                                Some [of_nat ((x * 262144 + y * 4096 + z * 64 + w) div 65536),
                                      of_nat ((x * 262144 + y * 4096 + z * 64 + w) div 256),
                                      of_nat (x * 262144 + y * 4096 + z * 64 + w)]))))
      | _ \<Rightarrow> None)"

fun DecodeGroups :: "string \<Rightarrow> byte list option" where
  "DecodeGroups [] = Some []"
| "DecodeGroups [a, b, c, d] = DecodeGroup a b c d True"
| "DecodeGroups (a # b # c # d # rest) =
     (case DecodeGroup a b c d False of
        None \<Rightarrow> None
      | Some bs \<Rightarrow> (case DecodeGroups rest of None \<Rightarrow> None | Some cs \<Rightarrow> Some (bs @ cs)))"
| "DecodeGroups _ = None"

definition FromBase64String :: "string \<Rightarrow> byte list option" where
  "FromBase64String s = DecodeGroups (filter (\<lambda>c. \<not> IsBase64WhiteSpace c) s)"

section \<open>Attachment validation\<close>

definition allowedMimeTypes :: "string list" where
  "allowedMimeTypes = [''image/png'', ''image/jpeg'', ''image/jpg'', ''image/gif'', ''image/webp'']"

definition maxSizeBytes :: nat where
  "maxSizeBytes = 5 * 1024 * 1024"

text \<open>
  The body of the \<open>for\<close> loop of \<open>ValidateImageDataUris\<close> for the entry at index \<open>i\<close>:
  the errors this iteration appends. Each \<open>continue\<close> is the end of a branch.
\<close>

definition ValidateItem :: "nat \<Rightarrow> string \<Rightarrow> exn + validation_error list" where
  "ValidateItem i dataUri =
     (if \<not> StartsWith dataUri ''data:'' then Inr [InvalidDataUriFormat (i + 1)]
      else
        let semiIndex = IndexOf dataUri CHR '';'';
            commaIndex = IndexOf dataUri CHR '',''
        in if semiIndex < 0 \<or> commaIndex < 0 \<or> commaIndex < semiIndex
           then Inr [MalformedDataUri (i + 1)]
           else
             (case Range dataUri (int (length ''data:'')) semiIndex of
                Inl e \<Rightarrow> Inl e
              | Inr raw \<Rightarrow>
                  let mediaType = ToLowerInvariant raw
                  in if mediaType \<notin> set allowedMimeTypes
                     then Inr [UnsupportedMimeType (i + 1) mediaType]
                     else
                       (case RangeFrom dataUri (commaIndex + 1) of
                          Inl e \<Rightarrow> Inl e
                        | Inr base64Data \<Rightarrow>
                            (case FromBase64String base64Data of
                               None \<Rightarrow> Inr [InvalidBase64 (i + 1)]
                             | Some imageBytes \<Rightarrow>
                                 if length imageBytes > maxSizeBytes
                                 then Inr [SizeExceeds (i + 1) (length imageBytes)]
                                 else Inr []))))"

fun ValidateLoop :: "nat \<Rightarrow> string list \<Rightarrow> exn + validation_error list" where
  "ValidateLoop i [] = Inr []"
| "ValidateLoop i (dataUri # rest) =
     (case ValidateItem i dataUri of
        Inl e \<Rightarrow> Inl e
      | Inr errs \<Rightarrow>
          (case ValidateLoop (i + 1) rest of
             Inl e \<Rightarrow> Inl e
           | Inr others \<Rightarrow> Inr (errs @ others)))"

definition ValidateImageDataUris :: "string list option \<Rightarrow> exn + validation_error list" where
  "ValidateImageDataUris imageDataUris =
     (case imageDataUris of
        None \<Rightarrow> Inr []
      | Some uris \<Rightarrow>
          if length uris = 0 then Inr []
          else if length uris > 5 then Inr [TooManyImages (length uris)]
          else ValidateLoop 0 uris)"

section \<open>Building the user message\<close>

text \<open>
  \<open>new Uri(s)\<close> raises \<open>UriFormatException\<close> unless \<open>s\<close> is an absolute URI; the model
  decides this by the presence of a scheme (a letter, then letters, digits, \<open>+\<close>, \<open>-\<close> or
  \<open>.\<close>, then a colon).
\<close>

definition IsSchemeChar :: "char \<Rightarrow> bool" where
  "IsSchemeChar c =
     (let n = (of_char c :: nat) in
      (65 \<le> n \<and> n \<le> 90) \<or> (97 \<le> n \<and> n \<le> 122) \<or> (48 \<le> n \<and> n \<le> 57)
      \<or> n = 43 \<or> n = 45 \<or> n = 46)"

definition IsLetter :: "char \<Rightarrow> bool" where
  "IsLetter c =
     (let n = (of_char c :: nat) in (65 \<le> n \<and> n \<le> 90) \<or> (97 \<le> n \<and> n \<le> 122))"

definition NewUri :: "string \<Rightarrow> exn + string" where
  "NewUri s =
     (let scheme = takeWhile (\<lambda>c. c \<noteq> CHR '':'') s
      in if CHR '':'' \<in> set s \<and> scheme \<noteq> [] \<and> IsLetter (hd scheme) \<and> list_all IsSchemeChar scheme
         then Inr s else Inl UriFormatException)"

text \<open>The list the \<open>foreach\<close> loop runs over: \<open>imageDataUris ?? []\<close>.\<close>

definition entries :: "string list option \<Rightarrow> string list" where
  "entries imageDataUris = (case imageDataUris of None \<Rightarrow> [] | Some uris \<Rightarrow> uris)"

text \<open>The body of the \<open>foreach\<close> loop of \<open>BuildUserMessage\<close>: the part added for one entry.\<close>

definition BuildImagePart :: "string \<Rightarrow> exn + ResponseContentPart" where
  "BuildImagePart imageDataUri =
     (if StartsWith imageDataUri ''data:''
      then (case Range imageDataUri (int (length ''data:'')) (IndexOf imageDataUri CHR '';'') of
              Inl e \<Rightarrow> Inl e
            | Inr mediaType \<Rightarrow>
                (case RangeFrom imageDataUri (IndexOf imageDataUri CHR '','' + 1) of
                   Inl e \<Rightarrow> Inl e
                 | Inr base64Data \<Rightarrow>
                     (case FromBase64String base64Data of
                        None \<Rightarrow> Inl FormatException
                      | Some imageBytes \<Rightarrow> Inr (InputImagePart_Bytes imageBytes mediaType))))
      else (case NewUri imageDataUri of
              Inl e \<Rightarrow> Inl e
            | Inr uri \<Rightarrow> Inr (InputImagePart_Uri uri)))"

fun BuildImageParts :: "string list \<Rightarrow> exn + ResponseContentPart list" where
  "BuildImageParts [] = Inr []"
| "BuildImageParts (imageDataUri # rest) =
     (case BuildImagePart imageDataUri of
        Inl e \<Rightarrow> Inl e
      | Inr part \<Rightarrow>
          (case BuildImageParts rest of
             Inl e \<Rightarrow> Inl e
           | Inr parts \<Rightarrow> Inr (part # parts)))"

definition BuildUserMessage :: "string \<Rightarrow> string list option \<Rightarrow> exn + ResponseContentPart list" where
  "BuildUserMessage message imageDataUris =
     (case ValidateImageDataUris imageDataUris of
        Inl e \<Rightarrow> Inl e
      | Inr validationErrors \<Rightarrow>
          if length validationErrors > 0
          then Inl (ArgumentException_InvalidImages validationErrors)
          else (case BuildImageParts (entries imageDataUris) of
                  Inl e \<Rightarrow> Inl e
                | Inr imageParts \<Rightarrow> Inr (InputTextPart message # imageParts)))"

section \<open>Operations of the service\<close>

text \<open>
  \<open>GetAgentAsync\<close> in a sequential run: the disposal guard, the fast path on the cached
  field, then (the lock taken, the second check seeing the same empty field) the remote
  fetch; a successful fetch is stored, a failed one is rethrown with the field untouched.
\<close>

definition GetAgentAsync ::
  "provider \<Rightarrow> AzureAIAgentService \<Rightarrow>
   (exn + AgentVersion) \<times> AzureAIAgentService \<times> provider_call list" where
  "GetAgentAsync p svc =
     (if disposed svc then (Inl ObjectDisposedException, svc, [])
      else (case latestAgentVersion svc of
              Some agent \<Rightarrow> (Inr agent, svc, [])
            | None \<Rightarrow>
                (case agentFetch p of
                   Inl e \<Rightarrow> (Inl e, svc, [Agents_GetAgent (agentId svc)])
                 | Inr agentRecord \<Rightarrow>
                     (Inr (Versions_Latest agentRecord),
                      svc\<lparr>latestAgentVersion := Some (Versions_Latest agentRecord)\<rparr>,
                      [Agents_GetAgent (agentId svc)]))))"

text \<open>A run of consecutive calls of \<open>GetAgentAsync\<close>, one provider answer per call.\<close>

fun GetAgentAsync_calls ::
  "provider list \<Rightarrow> AzureAIAgentService \<Rightarrow>
   ((exn + AgentVersion) \<times> provider_call list) list \<times> AzureAIAgentService" where
  "GetAgentAsync_calls [] svc = ([], svc)"
| "GetAgentAsync_calls (p # ps) svc =
     (case GetAgentAsync p svc of
        (result, svc', calls) \<Rightarrow>
          (case GetAgentAsync_calls ps svc' of
             (results, svc'') \<Rightarrow> ((result, calls) # results, svc'')))"

text \<open>The metadata \<open>CreateConversationAsync\<close> puts into the creation options.\<close>

definition ConversationMetadata :: "string option \<Rightarrow> (string \<times> string) list" where
  "ConversationMetadata firstMessage =
     (if \<not> IsNullOrEmpty firstMessage
      then (case firstMessage of
              None \<Rightarrow> []
            | Some m \<Rightarrow> [(''title'', if length m > 50 then take 50 m @ ''...'' else m)])
      else [])"

definition CreateConversationAsync ::
  "provider \<Rightarrow> string option \<Rightarrow> AzureAIAgentService \<Rightarrow> (exn + string) \<times> provider_call list" where
  "CreateConversationAsync p firstMessage svc =
     (if disposed svc then (Inl ObjectDisposedException, [])
      else (newConversation p, [CreateProjectConversation (ConversationMetadata firstMessage)]))"

definition ExtractUsageInfo :: "ResponseTokenUsage \<Rightarrow> UsageInfo" where
  "ExtractUsageInfo usage =
     \<lparr>PromptTokens = InputTokenCount usage,
      CompletionTokens = OutputTokenCount usage,
      TotalTokens = TotalTokenCount usage\<rparr>"

text \<open>
  The \<open>await foreach\<close> loop of \<open>StreamMessageAsync\<close> over the updates the provider
  delivers: the deltas yielded, in order, and the service after the loop.
\<close>

fun StreamLoop ::
  "StreamingResponseUpdate list \<Rightarrow> AzureAIAgentService \<Rightarrow> string list \<times> AzureAIAgentService" where
  "StreamLoop [] svc = ([], svc)"
| "StreamLoop (OutputTextDeltaUpdate delta # updates) svc =
     (case StreamLoop updates svc of (deltas, svc') \<Rightarrow> (delta # deltas, svc'))"
| "StreamLoop (CompletedUpdate usage # updates) svc =
     StreamLoop updates (svc\<lparr>lastRunUsage := Some (ExtractUsageInfo usage)\<rparr>)"
| "StreamLoop (OtherUpdate # updates) svc = StreamLoop updates svc"

text \<open>
  \<open>StreamMessageAsync\<close>, enumerated to its end by the caller: the deltas yielded, the
  exception that ended the enumeration (if any), the service afterwards and the remote
  calls made.
\<close>

definition StreamMessageAsync ::
  "provider \<Rightarrow> string \<Rightarrow> string \<Rightarrow> string list option \<Rightarrow> AzureAIAgentService \<Rightarrow>
   string list \<times> exn option \<times> AzureAIAgentService \<times> provider_call list" where
  "StreamMessageAsync p conversationId message imageDataUris svc =
     (if disposed svc then ([], Some ObjectDisposedException, svc, [])
      else (case GetAgentAsync p svc of
              (Inl e, svc1, calls) \<Rightarrow> ([], Some e, svc1, calls)
            | (Inr agent, svc1, calls) \<Rightarrow>
                if IsNullOrWhiteSpace message
                then ([], Some ArgumentException_MessageBlank, svc1, calls)
                else (case BuildUserMessage message imageDataUris of
                        Inl e \<Rightarrow> ([], Some e, svc1, calls)
                      | Inr userMessage \<Rightarrow>
                          (case StreamLoop (responseUpdates p) svc1 of
                             (deltas, svc2) \<Rightarrow>
                               (deltas, responseFailure p, svc2,
                                calls @ [CreateResponseStreaming agent conversationId userMessage])))))"

definition GetLastRunUsageAsync :: "AzureAIAgentService \<Rightarrow> exn + UsageInfo option" where
  "GetLastRunUsageAsync svc =
     (if disposed svc then Inl ObjectDisposedException else Inr (lastRunUsage svc))"

section \<open>The stream encoder of the endpoint\<close>

text \<open>
  Modelled from the spec: the events of the wire protocol (section 6 of the specification:
  \<open>conversationId\<close>, \<open>chunk\<close>, \<open>usage\<close>, \<open>done\<close>, \<open>error\<close>) and the request body
  \<open>{ message, conversationId?, imageDataUris? }\<close>; the request and response models of the
  backend are not among the sources.
\<close>

datatype sse_event =
    ConversationIdEvent string
  | ChunkEvent string
  | UsageEvent UsageInfo
  | DoneEvent
  | ErrorEvent string

record ChatRequest =
  Message :: string
  ConversationId :: "string option"
  ImageDataUris :: "string list option"

text \<open>
  Modelled from the spec: the first step of the handler of the streaming endpoint, "emit
  ConversationId immediately (creating the conversation first if none was supplied by the
  caller)". The handler's code (the backend's \<open>Program.cs\<close>) is not among the sources, which
  hold only an abbreviated illustration of it. The conversation is the caller's, or a new
  one created by \<open>CreateConversationAsync\<close> from the message.
\<close>

definition EnsureConversation ::
  "provider \<Rightarrow> ChatRequest \<Rightarrow> AzureAIAgentService \<Rightarrow> (exn + string) \<times> provider_call list" where
  "EnsureConversation p request svc =
     (case ConversationId request of
        Some c \<Rightarrow> (Inr c, [])
      | None \<Rightarrow> CreateConversationAsync p (Some (Message request)) svc)"

text \<open>
  Modelled from the spec: the handler of the streaming endpoint (the backend's
  \<open>Program.cs\<close>, not among the sources), after section 4.2 of the specification: "emit
  ConversationId immediately (creating the conversation first if none was supplied by the
  caller); emit one Chunk event per delta ...; on normal provider completion, emit Usage
  (if captured) then Done; on any exception raised during iteration, emit a single Error
  event carrying a user-safe message and do not emit Done."

  The deltas are those of \<open>StreamMessageAsync\<close>, enumerated to its end, and the captured
  usage is what \<open>GetLastRunUsageAsync\<close> returns after the enumeration. \<open>safeMessage\<close>
  turns an exception into the user-safe text of the error event; the specification does not
  fix the text. The specification does not say what is sent when the conversation cannot
  be created: no event stream is produced then and the exception is the result (\<open>Inl\<close>).
  An exception of the usage accessor is reported like one of the iteration. The client
  stays connected: every write to the response succeeds.
\<close>

definition StreamEncoder ::
  "(exn \<Rightarrow> string) \<Rightarrow> provider \<Rightarrow> ChatRequest \<Rightarrow> AzureAIAgentService \<Rightarrow>
   (exn + sse_event list) \<times> AzureAIAgentService \<times> provider_call list" where
  "StreamEncoder safeMessage p request svc =
     (case EnsureConversation p request svc of
        (Inl e, calls) \<Rightarrow> (Inl e, svc, calls)
      | (Inr conversationId, calls) \<Rightarrow>
          (case StreamMessageAsync p conversationId (Message request) (ImageDataUris request) svc of
             (deltas, failure, svc', calls') \<Rightarrow>
               (Inr (ConversationIdEvent conversationId # map ChunkEvent deltas @
                     (case failure of
                        Some e \<Rightarrow> [ErrorEvent (safeMessage e)]
                      | None \<Rightarrow>
                          (case GetLastRunUsageAsync svc' of
                             Inl e \<Rightarrow> [ErrorEvent (safeMessage e)]
                           | Inr None \<Rightarrow> [DoneEvent]
                           | Inr (Some usage) \<Rightarrow> [UsageEvent usage, DoneEvent]))),
                svc', calls @ calls')))"

fun is_streaming_call :: "provider_call \<Rightarrow> bool" where
  "is_streaming_call (CreateResponseStreaming agent conversationId items) = True"
| "is_streaming_call _ = False"

fun is_completed_update :: "StreamingResponseUpdate \<Rightarrow> bool" where
  "is_completed_update (CompletedUpdate usage) = True"
| "is_completed_update _ = False"

fun is_error_event :: "sse_event \<Rightarrow> bool" where
  "is_error_event (ErrorEvent m) = True"
| "is_error_event _ = False"

fun is_usage_event :: "sse_event \<Rightarrow> bool" where
  "is_usage_event (UsageEvent u) = True"
| "is_usage_event _ = False"

fun is_terminal_event :: "sse_event \<Rightarrow> bool" where
  "is_terminal_event DoneEvent = True"
| "is_terminal_event (ErrorEvent m) = True"
| "is_terminal_event _ = False"

text \<open>
  The order of frames the wire protocol requires of a stream that ends in success
  (\<open>ok\<close>) or in failure: \<open>conversationId\<close> first, then chunks, then at most one
  \<open>usage\<close>, then the one terminal event, \<open>done\<close> on success and \<open>error\<close> on failure.
\<close>

fun spec_protocol_tail :: "bool \<Rightarrow> sse_event list \<Rightarrow> bool" where
  "spec_protocol_tail ok [] = False"
| "spec_protocol_tail ok [e] = (if ok then e = DoneEvent else is_error_event e)"
| "spec_protocol_tail ok (ChunkEvent c # es) = spec_protocol_tail ok es"
| "spec_protocol_tail ok [UsageEvent u, e] = (if ok then e = DoneEvent else is_error_event e)"
| "spec_protocol_tail ok _ = False"

definition spec_stream_protocol :: "bool \<Rightarrow> sse_event list \<Rightarrow> bool" where
  "spec_stream_protocol ok events =
     (case events of ConversationIdEvent c # es \<Rightarrow> spec_protocol_tail ok es | _ \<Rightarrow> False)"

section \<open>Concurrent callers of the agent-load path\<close>

text \<open>
  Several callers run \<open>GetAgentAsync\<close> on one service at once. Each caller is at one of
  the program points below; one step of one caller is one shared-memory access or one
  completed \<open>await\<close>, and steps of different callers interleave in any order.
  \<^item> \<open>Entry\<close>: before the disposal guard and the first test of \<open>_latestAgentVersion\<close>;
  \<^item> \<open>FastReturn\<close>: the first test saw a value, the \<open>return\<close> reads the field;
  \<^item> \<open>AtWait\<close>: at \<open>await _agentLock.WaitAsync\<close>, which completes when a permit is free;
  \<^item> \<open>InTry\<close>: holds the permit, before the second test;
  \<^item> \<open>Fetching\<close>: the remote \<open>Agents.GetAgentAsync\<close> is in flight;
  \<^item> \<open>Store r\<close>: the answer \<open>r\<close> arrived, the assignment to the field is next;
  \<^item> \<open>LockedReturn\<close>: the \<open>return\<close> inside \<open>try\<close> reads the field;
  \<^item> \<open>Finally v\<close>, \<open>FinallyThrow e\<close>: the \<open>finally\<close> block releases the permit;
  \<^item> \<open>Returned v\<close>, \<open>Thrown e\<close>: the caller's call has completed.
\<close>

datatype pc =
    Entry
  | FastReturn
  | AtWait
  | InTry
  | Fetching
  | Store AgentRecord
  | LockedReturn
  | Finally "AgentVersion option"
  | FinallyThrow exn
  | Returned "AgentVersion option"
  | Thrown exn

record system =
  service :: AzureAIAgentService
  permits :: nat
  fetches :: nat
  callers :: "pc list"

definition at :: "nat \<Rightarrow> pc \<Rightarrow> system \<Rightarrow> system" where
  "at t l s = s\<lparr>callers := (callers s)[t := l]\<rparr>"

text \<open>
  One step of caller \<open>t\<close>; \<open>None\<close> when the caller cannot move (it waits for the permit,
  it has completed, or there is no such caller). \<open>answer\<close> is what the provider answers to
  a fetch.
\<close>

definition step_caller :: "(exn + AgentRecord) \<Rightarrow> nat \<Rightarrow> system \<Rightarrow> system option" where
  "step_caller answer t s =
     (if t \<ge> length (callers s) then None
      else (case callers s ! t of
              Entry \<Rightarrow>
                Some (at t (if disposed (service s) then Thrown ObjectDisposedException
                            else if latestAgentVersion (service s) \<noteq> None then FastReturn
                            else AtWait) s)
            | FastReturn \<Rightarrow> Some (at t (Returned (latestAgentVersion (service s))) s)
            | AtWait \<Rightarrow>
                if permits s > 0 then Some (at t InTry (s\<lparr>permits := permits s - 1\<rparr>)) else None
            | InTry \<Rightarrow>
                if latestAgentVersion (service s) \<noteq> None then Some (at t LockedReturn s)
                else Some (at t Fetching (s\<lparr>fetches := fetches s + 1\<rparr>))
            | Fetching \<Rightarrow>
                (case answer of
                   Inl e \<Rightarrow> Some (at t (FinallyThrow e) s)
                 | Inr agentRecord \<Rightarrow> Some (at t (Store agentRecord) s))
            | Store agentRecord \<Rightarrow>
                Some (at t LockedReturn
                  (s\<lparr>service := (service s)\<lparr>latestAgentVersion := Some (Versions_Latest agentRecord)\<rparr>\<rparr>))
            | LockedReturn \<Rightarrow> Some (at t (Finally (latestAgentVersion (service s))) s)
            | Finally v \<Rightarrow>
                if permits s < 1 then Some (at t (Returned v) (s\<lparr>permits := permits s + 1\<rparr>))
                else Some (at t (Thrown SemaphoreFullException) s)
            | FinallyThrow e \<Rightarrow>
                if permits s < 1 then Some (at t (Thrown e) (s\<lparr>permits := permits s + 1\<rparr>))
                else Some (at t (Thrown SemaphoreFullException) s)
            | Returned v \<Rightarrow> None
            | Thrown e \<Rightarrow> None))"

text \<open>
  A schedule names the caller that moves next; a caller that cannot move when named is
  passed over. Every interleaving of the callers is the run of some schedule.
\<close>

fun run :: "(exn + AgentRecord) \<Rightarrow> nat list \<Rightarrow> system \<Rightarrow> system" where
  "run answer [] s = s"
| "run answer (t # ts) s =
     run answer ts (case step_caller answer t s of None \<Rightarrow> s | Some s' \<Rightarrow> s')"

text \<open>\<open>n\<close> callers enter a freshly constructed service: nothing cached, the permit free.\<close>

definition first_calls :: "string \<Rightarrow> nat \<Rightarrow> system" where
  "first_calls aid n =
     \<lparr>service = \<lparr>agentId = aid, latestAgentVersion = None, lastRunUsage = None, disposed = False\<rparr>,
      permits = 1, fetches = 0, callers = replicate n Entry\<rparr>"

fun completed :: "pc \<Rightarrow> bool" where
  "completed (Returned v) = True"
| "completed (Thrown e) = True"
| "completed _ = False"

fun holds_permit :: "pc \<Rightarrow> bool" where
  "holds_permit InTry = True"
| "holds_permit Fetching = True"
| "holds_permit (Store r) = True"
| "holds_permit LockedReturn = True"
| "holds_permit (Finally v) = True"
| "holds_permit (FinallyThrow e) = True"
| "holds_permit _ = False"

fun in_fetch :: "pc \<Rightarrow> bool" where
  "in_fetch Fetching = True"
| "in_fetch (Store r) = True"
| "in_fetch _ = False"

text \<open>The number of steps a caller at a program point can still take.\<close>

fun steps_left :: "pc \<Rightarrow> nat" where
  "steps_left Entry = 7"
| "steps_left AtWait = 6"
| "steps_left InTry = 5"
| "steps_left Fetching = 4"
| "steps_left (Store r) = 3"
| "steps_left LockedReturn = 2"
| "steps_left FastReturn = 1"
| "steps_left (Finally v) = 1"
| "steps_left (FinallyThrow e) = 1"
| "steps_left (Returned v) = 0"
| "steps_left (Thrown e) = 0"

definition work_left :: "system \<Rightarrow> nat" where
  "work_left s = sum_list (map steps_left (callers s))"

section \<open>Reference definition of attachment validation\<close>

text \<open>
  The specification of \<open>validateAttachments\<close>, written from its wording and independent of
  the control flow of the code: more than five entries give one aggregated error; otherwise
  each entry is parsed as \<open>data:<mime>;<encoding>,<payload>\<close> and is at fault when the parse
  fails, the mime type is not an allowed image type, the payload is not base64, or the
  decoded payload is larger than 5MB.
\<close>

datatype spec_reason = Structure | MimeType | Encoding | Size

datatype spec_error = TooMany | Item nat spec_reason

definition spec_parse :: "string \<Rightarrow> (string \<times> string \<times> string) option" where
  "spec_parse u =
     (if take 5 u = ''data:''
      then (let mime = takeWhile (\<lambda>c. c \<noteq> CHR '';'') (drop 5 u)
            in case dropWhile (\<lambda>c. c \<noteq> CHR '';'') (drop 5 u) of
                 [] \<Rightarrow> None
               | _ # r \<Rightarrow>
                   if CHR '','' \<in> set mime then None
                   else (case dropWhile (\<lambda>c. c \<noteq> CHR '','') r of
                           [] \<Rightarrow> None
                         | _ # payload \<Rightarrow>
                             Some (mime, takeWhile (\<lambda>c. c \<noteq> CHR '','') r, payload)))
      else None)"

definition spec_allowed_mime :: "string \<Rightarrow> bool" where
  "spec_allowed_mime mime =
     (ToLowerInvariant mime \<in> set (map (\<lambda>t. ''image/'' @ t) [''png'', ''jpeg'', ''jpg'', ''gif'', ''webp'']))"

definition spec_item_fault :: "string \<Rightarrow> spec_reason option" where
  "spec_item_fault u =
     (case spec_parse u of
        None \<Rightarrow> Some Structure
      | Some (mime, encoding, payload) \<Rightarrow>
          if \<not> spec_allowed_mime mime then Some MimeType
          else (case FromBase64String payload of
                  None \<Rightarrow> Some Encoding
                | Some bytes \<Rightarrow> if length bytes > 5 * 1024 * 1024 then Some Size else None))"

fun spec_item_errors :: "nat \<Rightarrow> string list \<Rightarrow> spec_error list" where
  "spec_item_errors k [] = []"
| "spec_item_errors k (u # us) =
     (case spec_item_fault u of None \<Rightarrow> [] | Some r \<Rightarrow> [Item k r]) @ spec_item_errors (k + 1) us"

definition spec_validateAttachments :: "string list option \<Rightarrow> spec_error list" where
  "spec_validateAttachments attachments =
     (case attachments of
        None \<Rightarrow> []
      | Some us \<Rightarrow>
          if us = [] then []
          else if length us > 5 then [TooMany]
          else spec_item_errors 1 us)"

text \<open>What the entry at index \<open>i\<close> contributes to the reference result.\<close>

definition item_result :: "nat \<Rightarrow> string \<Rightarrow> spec_error list" where
  "item_result i u = (case spec_item_fault u of None \<Rightarrow> [] | Some r \<Rightarrow> [Item (i + 1) r])"

text \<open>What a message of the code says, in the terms of the reference.\<close>

fun abstract_error :: "validation_error \<Rightarrow> spec_error" where
  "abstract_error (TooManyImages n) = TooMany"
| "abstract_error (InvalidDataUriFormat k) = Item k Structure"
| "abstract_error (MalformedDataUri k) = Item k Structure"
| "abstract_error (UnsupportedMimeType k m) = Item k MimeType"
| "abstract_error (SizeExceeds k n) = Item k Size"
| "abstract_error (InvalidBase64 k) = Item k Encoding"

text \<open>
  The image part that carries the decoded content of the entry \<open>u\<close>: the bytes its payload
  decodes to, under the media type the entry names.
\<close>

definition decoded_part :: "string \<Rightarrow> ResponseContentPart \<Rightarrow> bool" where
  "decoded_part u part =
     (case spec_parse u of
        None \<Rightarrow> False
      | Some (mime, encoding, payload) \<Rightarrow>
          (case FromBase64String payload of
             None \<Rightarrow> False
           | Some bytes \<Rightarrow> part = InputImagePart_Bytes bytes mime))"

fun is_inline_image :: "ResponseContentPart \<Rightarrow> bool" where
  "is_inline_image (InputImagePart_Bytes bytes mediaType) = True"
| "is_inline_image _ = False"

subsection \<open>Invariant of the interleaving model\<close>

text \<open>
  What holds of a caller at each program point when every fetch is answered with the
  record \<open>r\<close>, given the current content \<open>f\<close> of \<open>_latestAgentVersion\<close>.
\<close>

fun ok_pc :: "AgentRecord \<Rightarrow> AgentVersion option \<Rightarrow> pc \<Rightarrow> bool" where
  "ok_pc r f FastReturn = (f \<noteq> None)"
| "ok_pc r f LockedReturn = (f \<noteq> None)"
| "ok_pc r f (Finally v) = (v = Some (Versions_Latest r) \<and> f \<noteq> None)"
| "ok_pc r f (Returned v) = (v = Some (Versions_Latest r) \<and> f \<noteq> None)"
| "ok_pc r f (Store r') = (r' = r \<and> f = None)"
| "ok_pc r f Fetching = (f = None)"
| "ok_pc r f (FinallyThrow e) = False"
| "ok_pc r f (Thrown e) = False"
| "ok_pc r f _ = True"

text \<open>The callers that hold the permit, and those with a fetch issued and not yet stored.\<close>

definition holders :: "system \<Rightarrow> nat set" where
  "holders s = {t. t < length (callers s) \<and> holds_permit (callers s ! t)}"

definition fetchers :: "system \<Rightarrow> nat set" where
  "fetchers s = {t. t < length (callers s) \<and> in_fetch (callers s ! t)}"

definition load_inv :: "AgentRecord \<Rightarrow> system \<Rightarrow> bool" where
  "load_inv r s =
     (\<not> disposed (service s) \<and>
      ((permits s = 1 \<and> holders s = {}) \<or> (permits s = 0 \<and> (\<exists>t. holders s = {t}))) \<and>
      (latestAgentVersion (service s) = None \<or>
       latestAgentVersion (service s) = Some (Versions_Latest r)) \<and>
      (latestAgentVersion (service s) = None \<longrightarrow> fetches s = card (fetchers s)) \<and>
      (latestAgentVersion (service s) \<noteq> None \<longrightarrow> fetches s = 1 \<and> fetchers s = {}) \<and>
      (\<forall>t<length (callers s). ok_pc r (latestAgentVersion (service s)) (callers s ! t)))"

section \<open>Concrete services and providers\<close>

definition fresh_service :: AzureAIAgentService where
  "fresh_service = \<lparr>agentId = ''agent-1'', latestAgentVersion = None, lastRunUsage = None, disposed = False\<rparr>"

definition answering :: "StreamingResponseUpdate list \<Rightarrow> exn option \<Rightarrow> provider" where
  "answering updates failure =
     \<lparr>agentFetch = Inr \<lparr>Versions_Latest = AgentVersion ''v1''\<rparr>,
      newConversation = Inr ''conv-1'',
      responseUpdates = updates,
      responseFailure = failure\<rparr>"

definition usage_A :: ResponseTokenUsage where
  "usage_A = \<lparr>InputTokenCount = 1, OutputTokenCount = 2, TotalTokenCount = 3\<rparr>"

definition usage_B :: ResponseTokenUsage where
  "usage_B = \<lparr>InputTokenCount = 10, OutputTokenCount = 20, TotalTokenCount = 30\<rparr>"

definition call_A :: provider where
  "call_A = answering [OutputTextDeltaUpdate ''a'', CompletedUpdate usage_A] None"

definition call_B :: provider where
  "call_B = answering [OutputTextDeltaUpdate ''b'', CompletedUpdate usage_B] None"

definition after_A :: AzureAIAgentService where
  "after_A = fst (snd (snd (StreamMessageAsync call_A ''c1'' ''first'' None fresh_service)))"

definition after_B :: AzureAIAgentService where
  "after_B = fst (snd (snd (StreamMessageAsync call_B ''c2'' ''second'' None after_A)))"

definition plain_message :: "exn \<Rightarrow> string" where
  "plain_message e = ''The request could not be completed.''"

definition continued_request :: ChatRequest where
  "continued_request = \<lparr>Message = ''hi'', ConversationId = Some ''c1'', ImageDataUris = None\<rparr>"

definition failing_stream :: provider where
  "failing_stream =
     answering [OutputTextDeltaUpdate ''Hel''] (Some (ProviderException ''connection reset''))"

definition good_stream :: provider where
  "good_stream = answering [OutputTextDeltaUpdate ''Hel'', OutputTextDeltaUpdate ''lo''] None"

definition new_chat_request :: ChatRequest where
  "new_chat_request = \<lparr>Message = ''hello'', ConversationId = None, ImageDataUris = None\<rparr>"

definition timeout_stream :: provider where
  "timeout_stream =
     answering [OutputTextDeltaUpdate ''A'', OutputTextDeltaUpdate ''B'']
       (Some (ProviderException ''timeout''))"

definition usage_stream :: provider where
  "usage_stream =
     answering [OutputTextDeltaUpdate ''Hel'', OutputTextDeltaUpdate ''lo'', CompletedUpdate usage_A] None"

definition unavailable :: provider where
  "unavailable = (answering [] None)\<lparr>agentFetch := Inl (ProviderException ''unavailable'')\<rparr>"

definition example_record :: AgentRecord where
  "example_record = \<lparr>Versions_Latest = AgentVersion ''v1''\<rparr>"

section \<open>Facts about the string operations\<close>

lemma IndexOf_takeWhile:
  "IndexOf s c = (if c \<in> set s then int (length (takeWhile (\<lambda>x. x \<noteq> c) s)) else - 1)"
  by (induction s) (auto simp: Let_def)

lemma length_data: "length ''data:'' = 5"
  by simp

lemma StartsWith_data: "StartsWith u ''data:'' \<longleftrightarrow> take 5 u = ''data:''"
  by (simp only: StartsWith_def length_data)

lemma data_prefix_split: "take 5 u = ''data:'' \<Longrightarrow> u = ''data:'' @ drop 5 u"
  by (metis append_take_drop_id)

lemma allowed_eq: "spec_allowed_mime m \<longleftrightarrow> ToLowerInvariant m \<in> set allowedMimeTypes"
  by (simp add: spec_allowed_mime_def allowedMimeTypes_def)

lemma IndexOf_data:
  "c \<notin> set ''data:'' \<Longrightarrow>
   IndexOf (''data:'' @ rest) c =
     (if c \<in> set rest then 5 + int (length (takeWhile (\<lambda>x. x \<noteq> c) rest)) else - 1)"
  by (auto simp add: IndexOf_takeWhile)

lemma split_at_first:
  "c \<in> set s \<Longrightarrow> \<exists>pre post. s = pre @ c # post \<and> c \<notin> set pre"
  by (rule split_list_first)

lemma takeWhile_first: "c \<notin> set pre \<Longrightarrow> takeWhile (\<lambda>x. x \<noteq> c) (pre @ c # post) = pre"
  by (induction pre) auto

lemma dropWhile_first: "c \<notin> set pre \<Longrightarrow> dropWhile (\<lambda>x. x \<noteq> c) (pre @ c # post) = c # post"
  by (induction pre) auto

lemma takeWhile_none: "c \<notin> set s \<Longrightarrow> takeWhile (\<lambda>x. x \<noteq> c) s = s"
  by (induction s) auto

lemma dropWhile_none: "c \<notin> set s \<Longrightarrow> dropWhile (\<lambda>x. x \<noteq> c) s = []"
  by (induction s) auto

lemma spec_parse_prefix: "take 5 u \<noteq> ''data:'' \<Longrightarrow> spec_parse u = None"
  by (simp add: spec_parse_def)

lemma spec_parse_no_semi: "CHR '';'' \<notin> set rest \<Longrightarrow> spec_parse (''data:'' @ rest) = None"
  by (simp add: spec_parse_def dropWhile_none)

lemma spec_parse_comma_first:
  "CHR '';'' \<notin> set mime \<Longrightarrow> CHR '','' \<in> set mime \<Longrightarrow>
   spec_parse (''data:'' @ mime @ CHR '';'' # r) = None"
  by (simp add: spec_parse_def dropWhile_first takeWhile_first)

lemma spec_parse_no_comma:
  "CHR '';'' \<notin> set mime \<Longrightarrow> CHR '','' \<notin> set r \<Longrightarrow>
   spec_parse (''data:'' @ mime @ CHR '';'' # r) = None"
  by (simp add: spec_parse_def dropWhile_first takeWhile_first dropWhile_none)

lemma spec_parse_ok:
  "CHR '';'' \<notin> set mime \<Longrightarrow> CHR '','' \<notin> set mime \<Longrightarrow> CHR '','' \<notin> set enc \<Longrightarrow>
   spec_parse (''data:'' @ mime @ CHR '';'' # enc @ CHR '','' # p) = Some (mime, enc, p)"
  by (simp add: spec_parse_def dropWhile_first takeWhile_first)

section \<open>Attachment validation against its reference\<close>

lemma ValidateItem_spec:
  "\<exists>errs. ValidateItem i u = Inr errs \<and> map abstract_error errs = item_result i u"
proof (cases "take 5 u = ''data:''")
  case False
  then show ?thesis
    by (simp add: ValidateItem_def StartsWith_data spec_item_fault_def spec_parse_prefix item_result_def)
next
  case True
  define rest where "rest = drop 5 u"
  have u: "u = ''data:'' @ rest" using True rest_def data_prefix_split by simp
  have sw: "StartsWith u ''data:''" using True by (simp add: StartsWith_data)
  have semi: "IndexOf u CHR '';'' =
      (if CHR '';'' \<in> set rest then 5 + int (length (takeWhile (\<lambda>x. x \<noteq> CHR '';'') rest)) else - 1)"
    unfolding u by (rule IndexOf_data) simp
  have comma: "IndexOf u CHR '','' =
      (if CHR '','' \<in> set rest then 5 + int (length (takeWhile (\<lambda>x. x \<noteq> CHR '','') rest)) else - 1)"
    unfolding u by (rule IndexOf_data) simp
  show ?thesis
  proof (cases "CHR '';'' \<in> set rest")
    case False
    then have "spec_parse u = None" unfolding u by (rule spec_parse_no_semi)
    then show ?thesis using False sw semi
      by (simp add: ValidateItem_def spec_item_fault_def item_result_def Let_def)
  next
    case hasSemi: True
    obtain mime r where r: "rest = mime @ CHR '';'' # r" "CHR '';'' \<notin> set mime"
      using split_at_first[OF hasSemi] by auto
    have semi': "IndexOf u CHR '';'' = 5 + int (length mime)"
      using semi hasSemi r by (simp add: takeWhile_first)
    show ?thesis
    proof (cases "CHR '','' \<in> set mime")
      case True
      then obtain a b where ab: "mime = a @ CHR '','' # b" "CHR '','' \<notin> set a"
        using split_at_first by metis
      have "takeWhile (\<lambda>x. x \<noteq> CHR '','') rest = a"
        unfolding r(1) ab(1) using ab(2) by (simp add: takeWhile_first)
      moreover have "CHR '','' \<in> set rest" using True r(1) by simp
      ultimately have lt: "IndexOf u CHR '','' < IndexOf u CHR '';''"
        using comma semi' ab(1) by simp
      have "spec_parse u = None"
        unfolding u r(1) using r(2) True by (rule spec_parse_comma_first)
      then show ?thesis using sw lt
        by (simp add: ValidateItem_def spec_item_fault_def item_result_def Let_def)
    next
      case noComma: False
      show ?thesis
      proof (cases "CHR '','' \<in> set r")
        case False
        then have "CHR '','' \<notin> set rest" using noComma r(1) by simp
        then have neg: "IndexOf u CHR '','' = - 1" using comma by simp
        have "spec_parse u = None"
          unfolding u r(1) using r(2) False by (rule spec_parse_no_comma)
        then show ?thesis using sw neg
          by (simp add: ValidateItem_def spec_item_fault_def item_result_def Let_def)
      next
        case True
        obtain enc p where p: "r = enc @ CHR '','' # p" "CHR '','' \<notin> set enc"
          using split_at_first[OF True] by auto
        have u': "u = ''data:'' @ mime @ CHR '';'' # enc @ CHR '','' # p"
          using u r(1) p(1) by simp
        have "rest = (mime @ CHR '';'' # enc) @ CHR '','' # p" using r(1) p(1) by simp
        moreover have "CHR '','' \<notin> set (mime @ CHR '';'' # enc)" using noComma p(2) by simp
        ultimately have tw: "takeWhile (\<lambda>x. x \<noteq> CHR '','') rest = mime @ CHR '';'' # enc"
          using takeWhile_first by metis
        have inrest: "CHR '','' \<in> set rest" using True r(1) by simp
        have comma': "IndexOf u CHR '','' = 5 + int (length mime) + 1 + int (length enc)"
          using comma inrest tw by simp
        have parse: "spec_parse u = Some (mime, enc, p)"
          unfolding u' using r(2) noComma p(2) by (rule spec_parse_ok)
        have range: "Range u (int (length ''data:'')) (IndexOf u CHR '';'') = Inr mime"
          unfolding semi' by (subst u') (simp add: Range_def)
        define pre where "pre = ''data:'' @ mime @ CHR '';'' # enc @ [CHR '','']"
        have up: "u = pre @ p" using u' pre_def by simp
        have len: "IndexOf u CHR '','' + 1 = int (length pre)" using comma' pre_def by simp
        have rangeFrom: "RangeFrom u (IndexOf u CHR '','' + 1) = Inr p"
          unfolding len by (simp add: RangeFrom_def up)
        have ord: "\<not> IndexOf u CHR '','' < IndexOf u CHR '';''" "\<not> IndexOf u CHR '','' < 0"
          "\<not> IndexOf u CHR '';'' < 0"
          using comma' semi' by simp_all
        show ?thesis
          using sw ord range rangeFrom parse
          by (simp add: ValidateItem_def spec_item_fault_def item_result_def Let_def allowed_eq
                maxSizeBytes_def split: option.splits)
      qed
    qed
  qed
qed


lemma spec_item_errors_item_result:
  "spec_item_errors (i + 1) (u # us) = item_result i u @ spec_item_errors (i + 2) us"
  by (simp add: item_result_def split: option.splits)

lemma ValidateLoop_spec:
  "\<exists>errs. ValidateLoop i us = Inr errs \<and> map abstract_error errs = spec_item_errors (i + 1) us"
proof (induction us arbitrary: i)
  case Nil
  show ?case by simp
next
  case (Cons u us)
  obtain e1 where e1: "ValidateItem i u = Inr e1" "map abstract_error e1 = item_result i u"
    using ValidateItem_spec by blast
  obtain e2 where e2: "ValidateLoop (i + 1) us = Inr e2"
      "map abstract_error e2 = spec_item_errors (i + 1 + 1) us"
    using Cons.IH by blast
  show ?case using e1 e2 by (simp add: item_result_def split: option.splits)
qed

lemma ValidateItem_total: "\<exists>errs. ValidateItem i u = Inr errs"
  using ValidateItem_spec by blast

lemma ValidateLoop_total: "\<exists>errs. ValidateLoop i us = Inr errs"
  using ValidateLoop_spec by blast

text \<open>
  Claim C5. For every input list, \<open>ValidateImageDataUris\<close> raises nothing and its error
  list is the reference result: no error for a null or empty list; for more than five
  entries the single aggregated "too many" error and nothing else; otherwise, in the
  order of the entries, exactly one error for each entry that fails the structural parse of
  \<open>data:<mime>;<encoding>,<payload>\<close>, or else has a mime type outside image/png, jpeg, jpg,
  gif, webp (compared without regard to letter case), or else has a payload that is not
  base64, or else decodes to more than 5 * 1024 * 1024 bytes, and no error for any other
  entry. \<open>abstract_error\<close> reads off each message the image number and the kind of fault.
\<close>

theorem ValidateImageDataUris_refines_spec:
  "map_sum id (map abstract_error) (ValidateImageDataUris uris) = Inr (spec_validateAttachments uris)"
proof (cases uris)
  case None
  then show ?thesis by (simp add: ValidateImageDataUris_def spec_validateAttachments_def)
next
  case (Some us)
  obtain errs where "ValidateLoop 0 us = Inr errs" "map abstract_error errs = spec_item_errors (0 + 1) us"
    using ValidateLoop_spec by blast
  then show ?thesis using Some
    by (simp add: ValidateImageDataUris_def spec_validateAttachments_def)
qed


theorem ValidateImageDataUris_refines_spec_witness:
  "map_sum id (map abstract_error)
     (ValidateImageDataUris (Some [''data:image/png;base64,QUJD'', ''x'', ''data:image/bmp;base64,QUJD'']))
   = Inr [Item 2 Structure, Item 3 MimeType]"
  using ValidateImageDataUris_refines_spec
    [of "Some [''data:image/png;base64,QUJD'', ''x'', ''data:image/bmp;base64,QUJD'']"]
  by (simp add: spec_validateAttachments_def spec_item_fault_def spec_parse_def
      spec_allowed_mime_def ToLowerInvariant_def ToLowerChar_def FromBase64String_def
      IsBase64WhiteSpace_def DecodeGroup_def Base64Value_def)

section \<open>Validated attachments become inline parts\<close>

lemma dropWhile_Cons_hd: "dropWhile (\<lambda>x. x \<noteq> c) s = x # r \<Longrightarrow> x = c \<and> s = takeWhile (\<lambda>x. x \<noteq> c) s @ c # r"
proof -
  assume a: "dropWhile (\<lambda>x. x \<noteq> c) s = x # r"
  have "\<not> (hd (dropWhile (\<lambda>x. x \<noteq> c) s) \<noteq> c)"
    using a hd_dropWhile[of "\<lambda>x. x \<noteq> c" s] by auto
  then have x: "x = c" using a by simp
  have "s = takeWhile (\<lambda>x. x \<noteq> c) s @ dropWhile (\<lambda>x. x \<noteq> c) s" by simp
  then show ?thesis using a x by simp
qed

lemma notin_takeWhile: "c \<notin> set (takeWhile (\<lambda>x. x \<noteq> c) s)"
  by (induction s) auto

lemma spec_parse_Some_shape:
  assumes "spec_parse u = Some (mime, enc, p)"
  shows "u = ''data:'' @ mime @ CHR '';'' # enc @ CHR '','' # p \<and>
         CHR '';'' \<notin> set mime \<and> CHR '','' \<notin> set mime \<and> CHR '','' \<notin> set enc"
proof -
  have pre: "take 5 u = ''data:''" using assms by (auto simp: spec_parse_def split: if_splits)
  define rest where "rest = drop 5 u"
  have u: "u = ''data:'' @ rest" using pre rest_def data_prefix_split by simp
  from assms pre obtain x r y where
    d1: "dropWhile (\<lambda>c. c \<noteq> CHR '';'') rest = x # r" and
    m: "mime = takeWhile (\<lambda>c. c \<noteq> CHR '';'') rest" and
    nc: "CHR '','' \<notin> set mime" and
    d2: "dropWhile (\<lambda>c. c \<noteq> CHR '','') r = y # p" and
    e: "enc = takeWhile (\<lambda>c. c \<noteq> CHR '','') r"
    by (auto simp: spec_parse_def rest_def Let_def split: if_splits list.splits)
  have r1: "rest = mime @ CHR '';'' # r" using dropWhile_Cons_hd[OF d1] m by simp
  have r2: "r = enc @ CHR '','' # p" using dropWhile_Cons_hd[OF d2] e by simp
  have sm: "CHR '';'' \<notin> set mime" unfolding m by (rule notin_takeWhile)
  have ce: "CHR '','' \<notin> set enc" unfolding e by (rule notin_takeWhile)
  have full: "u = ''data:'' @ mime @ CHR '';'' # enc @ CHR '','' # p"
    by (simp add: u r1 r2)
  show ?thesis using full sm nc ce by blast
qed

lemma shape_slices:
  assumes u: "u = ''data:'' @ mime @ CHR '';'' # enc @ CHR '','' # p"
    and s: "CHR '';'' \<notin> set mime" and c1: "CHR '','' \<notin> set mime" and c2: "CHR '','' \<notin> set enc"
  shows "StartsWith u ''data:''"
    and "Range u (int (length ''data:'')) (IndexOf u CHR '';'') = Inr mime"
    and "RangeFrom u (IndexOf u CHR '','' + 1) = Inr p"
proof -
  define rest where "rest = mime @ CHR '';'' # enc @ CHR '','' # p"
  have ur: "u = ''data:'' @ rest" using u rest_def by simp
  show "StartsWith u ''data:''" unfolding ur by (simp add: StartsWith_def)
  have semi0: "IndexOf u CHR '';'' =
      (if CHR '';'' \<in> set rest then 5 + int (length (takeWhile (\<lambda>x. x \<noteq> CHR '';'') rest)) else - 1)"
    unfolding ur by (rule IndexOf_data) simp
  have comma0: "IndexOf u CHR '','' =
      (if CHR '','' \<in> set rest then 5 + int (length (takeWhile (\<lambda>x. x \<noteq> CHR '','') rest)) else - 1)"
    unfolding ur by (rule IndexOf_data) simp
  have tws: "takeWhile (\<lambda>x. x \<noteq> CHR '';'') rest = mime"
    unfolding rest_def using s by (rule takeWhile_first)
  have "takeWhile (\<lambda>x. x \<noteq> CHR '','') ((mime @ CHR '';'' # enc) @ CHR '','' # p) = mime @ CHR '';'' # enc"
    using c1 c2 by (intro takeWhile_first) simp
  then have twc: "takeWhile (\<lambda>x. x \<noteq> CHR '','') rest = mime @ CHR '';'' # enc"
    by (simp add: rest_def)
  have semi: "IndexOf u CHR '';'' = 5 + int (length mime)"
    using semi0 tws by (simp add: rest_def)
  have comma: "IndexOf u CHR '','' = 5 + int (length mime) + 1 + int (length enc)"
    using comma0 twc by (simp add: rest_def)
  show "Range u (int (length ''data:'')) (IndexOf u CHR '';'') = Inr mime"
    unfolding semi by (subst ur) (simp add: Range_def rest_def)
  define pre where "pre = ''data:'' @ mime @ CHR '';'' # enc @ [CHR '','']"
  have up: "u = pre @ p" using u pre_def by simp
  have len: "IndexOf u CHR '','' + 1 = int (length pre)" using comma pre_def by simp
  show "RangeFrom u (IndexOf u CHR '','' + 1) = Inr p"
    unfolding len by (simp add: RangeFrom_def up)
qed

lemma ValidateItem_valid_part:
  assumes "ValidateItem i u = Inr []"
  shows "StartsWith u ''data:'' \<and> (\<exists>part. BuildImagePart u = Inr part \<and> decoded_part u part)"
proof -
  obtain errs where "ValidateItem i u = Inr errs" "map abstract_error errs = item_result i u"
    using ValidateItem_spec by blast
  then have "item_result i u = []" using assms by simp
  then have nofault: "spec_item_fault u = None" by (simp add: item_result_def split: option.splits)
  then obtain mime enc p bytes where
    parse: "spec_parse u = Some (mime, enc, p)" and dec: "FromBase64String p = Some bytes"
    by (auto simp: spec_item_fault_def split: option.splits if_splits)
  note shape = spec_parse_Some_shape[OF parse]
  have sl: "StartsWith u ''data:''"
    "Range u (int (length ''data:'')) (IndexOf u CHR '';'') = Inr mime"
    "RangeFrom u (IndexOf u CHR '','' + 1) = Inr p"
    using shape_slices[of u mime enc p] shape by blast+
  have "BuildImagePart u = Inr (InputImagePart_Bytes bytes mime)"
    using sl dec by (simp add: BuildImagePart_def)
  moreover have "decoded_part u (InputImagePart_Bytes bytes mime)"
    using parse dec by (simp add: decoded_part_def)
  ultimately show ?thesis using sl(1) by blast
qed

lemma ValidateLoop_valid_parts:
  "ValidateLoop i us = Inr [] \<Longrightarrow>
   list_all (\<lambda>u. StartsWith u ''data:'') us \<and>
   (\<exists>parts. BuildImageParts us = Inr parts \<and> list_all2 decoded_part us parts)"
proof (induction us arbitrary: i)
  case Nil
  show ?case by simp
next
  case (Cons u us)
  obtain e1 where e1: "ValidateItem i u = Inr e1" using ValidateItem_total by blast
  obtain e2 where e2: "ValidateLoop (i + 1) us = Inr e2" using ValidateLoop_total by blast
  from Cons.prems e1 e2 have nil: "e1 = []" "e2 = []" by simp_all
  obtain part where part: "StartsWith u ''data:''" "BuildImagePart u = Inr part" "decoded_part u part"
    using ValidateItem_valid_part e1 nil(1) by blast
  obtain parts where parts: "list_all (\<lambda>u. StartsWith u ''data:'') us"
      "BuildImageParts us = Inr parts" "list_all2 decoded_part us parts"
    using Cons.IH e2 nil(2) by blast
  have "BuildImageParts (u # us) = Inr (part # parts)" using part(2) parts(2) by simp
  moreover have "list_all2 decoded_part (u # us) (part # parts)" using part(3) parts(3) by simp
  ultimately show ?case using part(1) parts(1) by auto
qed

lemma decoded_part_inline: "decoded_part u part \<Longrightarrow> is_inline_image part"
  by (auto simp: decoded_part_def split: option.splits)

lemma decoded_parts_inline: "list_all2 decoded_part us parts \<Longrightarrow> list_all is_inline_image parts"
  by (induction us parts rule: list_all2_induct) (simp_all add: decoded_part_inline)

text \<open>
  Claim C10. When the attachment list passes validation, every entry starts with
  \<open>data:\<close>, \<open>BuildUserMessage\<close> succeeds, and the parts after the text part are, entry by
  entry and in order, image parts holding the bytes that the entry's base64 payload decodes
  to, under the entry's media type: the branch that builds an image part from a remote URI
  is never taken.
\<close>

theorem validated_images_are_inline:
  assumes "ValidateImageDataUris imageDataUris = Inr []"
  shows "list_all (\<lambda>u. StartsWith u ''data:'') (entries imageDataUris) \<and>
         (\<exists>parts. BuildUserMessage message imageDataUris = Inr (InputTextPart message # parts) \<and>
                  list_all2 decoded_part (entries imageDataUris) parts \<and>
                  list_all is_inline_image parts \<and>
                  length parts = length (entries imageDataUris))"
proof -
  have loop: "ValidateLoop 0 (entries imageDataUris) = Inr []"
  proof (cases imageDataUris)
    case None
    then show ?thesis by (simp add: entries_def)
  next
    case (Some uris)
    show ?thesis
    proof (cases "length uris = 0 \<or> length uris > 5")
      case True
      then have "uris = []" using assms Some by (auto simp: ValidateImageDataUris_def split: if_splits)
      then show ?thesis using Some by (simp add: entries_def)
    next
      case False
      then show ?thesis using assms Some by (simp add: ValidateImageDataUris_def entries_def)
    qed
  qed
  obtain parts where parts: "list_all (\<lambda>u. StartsWith u ''data:'') (entries imageDataUris)"
      "BuildImageParts (entries imageDataUris) = Inr parts"
      "list_all2 decoded_part (entries imageDataUris) parts"
    using ValidateLoop_valid_parts[OF loop] by blast
  have inline: "list_all is_inline_image parts"
    using parts(3) by (rule decoded_parts_inline)
  have len: "length parts = length (entries imageDataUris)"
    using parts(3) by (simp add: list_all2_lengthD)
  have "BuildUserMessage message imageDataUris = Inr (InputTextPart message # parts)"
    using assms parts(2) by (simp add: BuildUserMessage_def)
  then show ?thesis using parts(1,3) inline len by blast
qed

lemma decode_QUJD: "FromBase64String ''QUJD'' = Some [65, 66, 67]"
  by (simp add: FromBase64String_def IsBase64WhiteSpace_def DecodeGroup_def Base64Value_def)

theorem validated_images_are_inline_witness:
  "ValidateImageDataUris (Some [''data:image/png;base64,QUJD'']) = Inr [] \<and>
   BuildUserMessage ''hi'' (Some [''data:image/png;base64,QUJD''])
     = Inr [InputTextPart ''hi'', InputImagePart_Bytes [65, 66, 67] ''image/png'']"
proof -
  have v: "ValidateImageDataUris (Some [''data:image/png;base64,QUJD'']) = Inr []"
    by (simp add: ValidateImageDataUris_def ValidateItem_def StartsWith_def Range_def
        RangeFrom_def ToLowerInvariant_def ToLowerChar_def allowedMimeTypes_def
        FromBase64String_def IsBase64WhiteSpace_def DecodeGroup_def Base64Value_def
        maxSizeBytes_def)
  have d: "\<And>part. decoded_part ''data:image/png;base64,QUJD'' part \<longleftrightarrow>
             part = InputImagePart_Bytes [65, 66, 67] ''image/png''"
    by (simp add: decoded_part_def spec_parse_def decode_QUJD)
  obtain parts where
    b: "BuildUserMessage ''hi'' (Some [''data:image/png;base64,QUJD'']) = Inr (InputTextPart ''hi'' # parts)"
    and p: "list_all2 decoded_part (entries (Some [''data:image/png;base64,QUJD''])) parts"
    using validated_images_are_inline[OF v, of "''hi''"] by blast
  from p have "parts = [InputImagePart_Bytes [65, 66, 67] ''image/png'']"
    by (auto simp: entries_def list_all2_Cons1 d)
  then show ?thesis using v b by simp
qed

section \<open>Facts about the service operations\<close>

lemma GetAgentAsync_cached:
  "\<not> disposed svc \<Longrightarrow> latestAgentVersion svc = Some a \<Longrightarrow> GetAgentAsync p svc = (Inr a, svc, [])"
  by (simp add: GetAgentAsync_def)

lemma GetAgentAsync_calls_cached:
  "\<not> disposed svc \<Longrightarrow> latestAgentVersion svc = Some a \<Longrightarrow>
   GetAgentAsync_calls ps svc = (map (\<lambda>p. (Inr a, [])) ps, svc)"
  by (induction ps) (simp_all add: GetAgentAsync_cached)

lemma GetAgentAsync_cases:
  obtains (disposed) "disposed svc" "GetAgentAsync p svc = (Inl ObjectDisposedException, svc, [])"
  | (cached) a where "\<not> disposed svc" "latestAgentVersion svc = Some a" "GetAgentAsync p svc = (Inr a, svc, [])"
  | (failed) e where "\<not> disposed svc" "latestAgentVersion svc = None" "agentFetch p = Inl e"
      "GetAgentAsync p svc = (Inl e, svc, [Agents_GetAgent (agentId svc)])"
  | (loaded) r where "\<not> disposed svc" "latestAgentVersion svc = None" "agentFetch p = Inr r"
      "GetAgentAsync p svc = (Inr (Versions_Latest r), svc\<lparr>latestAgentVersion := Some (Versions_Latest r)\<rparr>,
         [Agents_GetAgent (agentId svc)])"
  by (cases "disposed svc"; cases "latestAgentVersion svc"; cases "agentFetch p")
     (auto simp: GetAgentAsync_def)

lemma StreamLoop_disposed: "disposed (snd (StreamLoop us svc)) = disposed svc"
  by (induction us svc rule: StreamLoop.induct) (auto split: prod.splits)

lemma StreamLoop_no_completed:
  "filter is_completed_update us = [] \<Longrightarrow> lastRunUsage (snd (StreamLoop us svc)) = lastRunUsage svc"
  by (induction us svc rule: StreamLoop.induct) (auto split: prod.splits)

lemma StreamLoop_append:
  "StreamLoop (us @ vs) svc =
     (fst (StreamLoop us svc) @ fst (StreamLoop vs (snd (StreamLoop us svc))),
      snd (StreamLoop vs (snd (StreamLoop us svc))))"
  by (induction us svc rule: StreamLoop.induct) (auto split: prod.splits)

lemma StreamLoop_last_completed:
  "filter is_completed_update post = [] \<Longrightarrow>
   lastRunUsage (snd (StreamLoop (pre @ CompletedUpdate u # post) svc)) = Some (ExtractUsageInfo u)"
  by (simp add: StreamLoop_append StreamLoop_no_completed)

lemma StreamMessageAsync_cases:
  obtains
    (rejected) e svcL calls where
      "StreamMessageAsync p cid m uris svc = ([], Some e, svcL, calls)"
      "filter is_streaming_call calls = []"
      "lastRunUsage svcL = lastRunUsage svc" "disposed svcL = disposed svc"
  | (opened) agent svcL calls userMessage where
      "StreamMessageAsync p cid m uris svc =
         (fst (StreamLoop (responseUpdates p) svcL), responseFailure p,
          snd (StreamLoop (responseUpdates p) svcL),
          calls @ [CreateResponseStreaming agent cid userMessage])"
      "GetAgentAsync p svc = (Inr agent, svcL, calls)"
      "filter is_streaming_call calls = []"
      "lastRunUsage svcL = lastRunUsage svc" "\<not> disposed svc" "\<not> disposed svcL"
      "\<not> IsNullOrWhiteSpace m" "BuildUserMessage m uris = Inr userMessage"
proof (cases p svc rule: GetAgentAsync_cases)
  case disposed
  then show ?thesis using rejected by (simp add: StreamMessageAsync_def)
next
  case (failed e)
  then show ?thesis using rejected[where e="e" and svcL="svc" and calls="[Agents_GetAgent (agentId svc)]"]
    by (simp add: StreamMessageAsync_def)
next
  case (cached a)
  show ?thesis
  proof (cases "IsNullOrWhiteSpace m")
    case True
    then show ?thesis using cached rejected[where e="ArgumentException_MessageBlank" and svcL="svc" and calls="[]"]
      by (simp add: StreamMessageAsync_def)
  next
    case False
    show ?thesis
    proof (cases "BuildUserMessage m uris")
      case (Inl e)
      then show ?thesis using cached False rejected[where e="e" and svcL="svc" and calls="[]"]
        by (simp add: StreamMessageAsync_def)
    next
      case (Inr userMessage)
      then show ?thesis using cached False opened[where agent=a and svcL="svc" and calls="[]" and userMessage=userMessage]
        by (simp add: StreamMessageAsync_def split_beta)
    qed
  qed
next
  case (loaded r)
  let ?svcL = "svc\<lparr>latestAgentVersion := Some (Versions_Latest r)\<rparr>"
  let ?calls = "[Agents_GetAgent (agentId svc)]"
  show ?thesis
  proof (cases "IsNullOrWhiteSpace m")
    case True
    then show ?thesis using loaded rejected[where e="ArgumentException_MessageBlank" and svcL="?svcL" and calls="?calls"]
      by (simp add: StreamMessageAsync_def)
  next
    case False
    show ?thesis
    proof (cases "BuildUserMessage m uris")
      case (Inl e)
      then show ?thesis using loaded False rejected[where e="e" and svcL="?svcL" and calls="?calls"]
        by (simp add: StreamMessageAsync_def)
    next
      case (Inr userMessage)
      then show ?thesis using loaded False opened[where agent="Versions_Latest r" and svcL="?svcL" and calls="?calls" and userMessage=userMessage]
        by (simp add: StreamMessageAsync_def split_beta)
    qed
  qed
qed

section \<open>Facts about the stream encoder\<close>

lemma no_terminal_in_chunks: "filter is_terminal_event (map ChunkEvent ds) = []"
  by (induction ds) simp_all

lemma no_usage_in_chunks: "filter is_usage_event (map ChunkEvent ds) = []"
  by (induction ds) simp_all

lemma no_error_in_chunks: "filter is_error_event (map ChunkEvent ds) = []"
  by (induction ds) simp_all

lemma tail_terminal:
  "spec_protocol_tail ok (map ChunkEvent ds @ [t]) = (if ok then t = DoneEvent else is_error_event t)"
proof (induction ds)
  case Nil
  show ?case by simp
next
  case (Cons d ds)
  then show ?case by (cases "map ChunkEvent ds @ [t]") simp_all
qed

lemma tail_usage_terminal:
  "spec_protocol_tail ok (map ChunkEvent ds @ [UsageEvent u, t]) =
     (if ok then t = DoneEvent else is_error_event t)"
proof (induction ds)
  case Nil
  show ?case by simp
next
  case (Cons d ds)
  then show ?case by (cases "map ChunkEvent ds @ [UsageEvent u, t]") simp_all
qed

lemma StreamMessageAsync_success_live:
  assumes "fst (snd (StreamMessageAsync p c m uris svc)) = None"
  shows "\<not> disposed (fst (snd (snd (StreamMessageAsync p c m uris svc))))"
proof (cases p c m uris svc rule: StreamMessageAsync_cases)
  case (rejected e svcL calls)
  then show ?thesis using assms by simp
next
  case (opened agent svcL calls userMessage)
  then show ?thesis by (simp add: StreamLoop_disposed)
qed

lemma StreamEncoder_cases:
  obtains
    (no_conversation) e calls where
      "EnsureConversation p request svc = (Inl e, calls)"
      "StreamEncoder safeMessage p request svc = (Inl e, svc, calls)"
  | (failed) c ds e svcL calls where
      "fst (EnsureConversation p request svc) = Inr c"
      "fst (StreamMessageAsync p c (Message request) (ImageDataUris request) svc) = ds"
      "fst (snd (StreamMessageAsync p c (Message request) (ImageDataUris request) svc)) = Some e"
      "StreamEncoder safeMessage p request svc =
         (Inr (ConversationIdEvent c # map ChunkEvent ds @ [ErrorEvent (safeMessage e)]), svcL, calls)"
  | (succeeded) c ds tail svcL calls where
      "fst (EnsureConversation p request svc) = Inr c"
      "fst (StreamMessageAsync p c (Message request) (ImageDataUris request) svc) = ds"
      "fst (snd (StreamMessageAsync p c (Message request) (ImageDataUris request) svc)) = None"
      "tail = (case lastRunUsage (fst (snd (snd (StreamMessageAsync p c (Message request)
                  (ImageDataUris request) svc)))) of
                None \<Rightarrow> [DoneEvent] | Some usage \<Rightarrow> [UsageEvent usage, DoneEvent])"
      "StreamEncoder safeMessage p request svc =
         (Inr (ConversationIdEvent c # map ChunkEvent ds @ tail), svcL, calls)"
proof (cases "fst (EnsureConversation p request svc)")
  case (Inl e)
  then obtain cc where "EnsureConversation p request svc = (Inl e, cc)"
    by (cases "EnsureConversation p request svc") simp
  then show ?thesis using no_conversation by (simp add: StreamEncoder_def)
next
  case (Inr c)
  then obtain cc where E: "EnsureConversation p request svc = (Inr c, cc)"
    by (cases "EnsureConversation p request svc") simp
  obtain ds failure svcL calls where
    S: "StreamMessageAsync p c (Message request) (ImageDataUris request) svc = (ds, failure, svcL, calls)"
    by (cases "StreamMessageAsync p c (Message request) (ImageDataUris request) svc") auto
  show ?thesis
  proof (cases failure)
    case (Some e)
    have "StreamEncoder safeMessage p request svc =
         (Inr (ConversationIdEvent c # map ChunkEvent ds @ [ErrorEvent (safeMessage e)]), svcL, cc @ calls)"
      using E S Some by (simp add: StreamEncoder_def)
    then show ?thesis using S Inr Some by (intro failed[where c=c and ds=ds and e=e]) simp_all
  next
    case None
    have "\<not> disposed svcL"
      using StreamMessageAsync_success_live[of p c "Message request" "ImageDataUris request" svc] S None
      by simp
    then have acc: "GetLastRunUsageAsync svcL = Inr (lastRunUsage svcL)"
      by (simp add: GetLastRunUsageAsync_def)
    have "StreamEncoder safeMessage p request svc =
         (Inr (ConversationIdEvent c # map ChunkEvent ds @
               (case lastRunUsage svcL of None \<Rightarrow> [DoneEvent] | Some usage \<Rightarrow> [UsageEvent usage, DoneEvent])),
          svcL, cc @ calls)"
      using E S None acc by (simp add: StreamEncoder_def split: option.splits)
    then show ?thesis using S Inr None by (intro succeeded[where c=c and ds=ds]) simp_all
  qed
qed

section \<open>Facts about the interleaving model\<close>

lemma holders_at:
  "t < length (callers s) \<Longrightarrow>
   holders (at t l s) = (if holds_permit l then insert t (holders s) else holders s - {t})"
  by (auto simp: holders_def at_def nth_list_update)

lemma fetchers_at:
  "t < length (callers s) \<Longrightarrow>
   fetchers (at t l s) = (if in_fetch l then insert t (fetchers s) else fetchers s - {t})"
  by (auto simp: fetchers_def at_def nth_list_update)

lemma at_fields [simp]:
  "service (at t l s) = service s" "permits (at t l s) = permits s" "fetches (at t l s) = fetches s"
  "length (callers (at t l s)) = length (callers s)"
  by (simp_all add: at_def)

lemma callers_at_nth:
  "u < length (callers s) \<Longrightarrow> callers (at t l s) ! u = (if u = t then l else callers s ! u)"
  by (simp add: at_def nth_list_update)

lemma holders_upd [simp]:
  "holders (s\<lparr>permits := n\<rparr>) = holders s" "holders (s\<lparr>fetches := m\<rparr>) = holders s"
  "holders (s\<lparr>service := v\<rparr>) = holders s"
  by (simp_all add: holders_def)

lemma fetchers_upd [simp]:
  "fetchers (s\<lparr>permits := n\<rparr>) = fetchers s" "fetchers (s\<lparr>fetches := m\<rparr>) = fetchers s"
  "fetchers (s\<lparr>service := v\<rparr>) = fetchers s"
  by (simp_all add: fetchers_def)

lemma in_holders: "t < length (callers s) \<Longrightarrow> t \<in> holders s \<longleftrightarrow> holds_permit (callers s ! t)"
  by (simp add: holders_def)

lemma in_fetchers: "t < length (callers s) \<Longrightarrow> t \<in> fetchers s \<longleftrightarrow> in_fetch (callers s ! t)"
  by (simp add: fetchers_def)

lemma in_fetch_holds: "in_fetch l \<Longrightarrow> holds_permit l"
  by (cases l) simp_all

lemma fetchers_subset: "fetchers s \<subseteq> holders s"
  by (auto simp: fetchers_def holders_def in_fetch_holds)

lemma load_inv_first_calls: "load_inv r (first_calls aid n)"
  by (simp add: load_inv_def first_calls_def holders_def fetchers_def)

text \<open>A step that keeps the caller's status.\<close>

lemma load_inv_at_same:
  assumes inv: "load_inv r s" and t: "t < length (callers s)"
    and h: "holds_permit l = holds_permit (callers s ! t)"
    and f: "in_fetch l = in_fetch (callers s ! t)"
    and ok: "ok_pc r (latestAgentVersion (service s)) l"
  shows "load_inv r (at t l s)"
proof -
  have H: "holders (at t l s) = holders s"
    using t h by (auto simp: holders_at in_holders[OF t, symmetric])
  have F: "fetchers (at t l s) = fetchers s"
    using t f by (auto simp: fetchers_at in_fetchers[OF t, symmetric])
  have O: "\<forall>u<length (callers s). ok_pc r (latestAgentVersion (service s)) (callers (at t l s) ! u)"
    using inv ok by (simp add: callers_at_nth load_inv_def)
  show ?thesis using inv H F O by (simp add: load_inv_def)
qed


lemma holder_unique:
  assumes "load_inv r s" "t < length (callers s)" "holds_permit (callers s ! t)"
  shows "holders s = {t}" "permits s = 0"
proof -
  have "t \<in> holders s" using assms by (simp add: in_holders)
  then show "holders s = {t}" "permits s = 0" using assms(1) by (auto simp: load_inv_def)
qed

lemma no_holder_free:
  assumes "load_inv r s" "holders s = {}"
  shows "permits s = 1"
  using assms by (auto simp: load_inv_def)

text \<open>Taking the permit.\<close>

lemma load_inv_acquire:
  assumes inv: "load_inv r s" and t: "t < length (callers s)"
    and at: "callers s ! t = AtWait" and p: "permits s > 0"
  shows "load_inv r (at t InTry (s\<lparr>permits := permits s - 1\<rparr>))"
proof -
  have free: "permits s = 1" "holders s = {}" using inv p by (auto simp: load_inv_def)
  have H: "holders (at t InTry (s\<lparr>permits := permits s - 1\<rparr>)) = {t}"
    using t free by (simp add: holders_at)
  have "\<not> in_fetch (callers s ! t)" using at by simp
  then have "t \<notin> fetchers s" using t by (simp add: in_fetchers)
  then have F: "fetchers (at t InTry (s\<lparr>permits := permits s - 1\<rparr>)) = fetchers s"
    using t by (simp add: fetchers_at)
  have O: "\<forall>u<length (callers s).
      ok_pc r (latestAgentVersion (service s)) (callers (at t InTry (s\<lparr>permits := permits s - 1\<rparr>)) ! u)"
    using inv by (simp add: callers_at_nth load_inv_def)
  show ?thesis using inv free H F O by (simp add: load_inv_def)
qed

text \<open>Issuing the fetch.\<close>

lemma load_inv_fetch:
  assumes inv: "load_inv r s" and t: "t < length (callers s)"
    and at: "callers s ! t = InTry" and n: "latestAgentVersion (service s) = None"
  shows "load_inv r (at t Fetching (s\<lparr>fetches := fetches s + 1\<rparr>))"
proof -
  have hu: "holders s = {t}" "permits s = 0" using holder_unique[OF inv t] at by simp_all
  have H: "holders (at t Fetching (s\<lparr>fetches := fetches s + 1\<rparr>)) = {t}"
    using t hu by (simp add: holders_at)
  have "\<not> in_fetch (callers s ! t)" using at by simp
  then have "t \<notin> fetchers s" using t by (simp add: in_fetchers)
  moreover have "fetchers s \<subseteq> {t}" using fetchers_subset hu by metis
  ultimately have F0: "fetchers s = {}" by auto
  have F: "fetchers (at t Fetching (s\<lparr>fetches := fetches s + 1\<rparr>)) = {t}"
    using t F0 by (simp add: fetchers_at)
  have fz: "fetches s = 0" using inv n F0 by (simp add: load_inv_def)
  have O: "\<forall>u<length (callers s).
      ok_pc r (latestAgentVersion (service s)) (callers (at t Fetching (s\<lparr>fetches := fetches s + 1\<rparr>)) ! u)"
    using inv n by (simp add: callers_at_nth load_inv_def)
  show ?thesis using inv hu H F O fz n by (simp add: load_inv_def)
qed

lemma ok_pc_other:
  "ok_pc r f l \<Longrightarrow> \<not> holds_permit l \<Longrightarrow> ok_pc r (Some (Versions_Latest r)) l"
  by (cases l) simp_all

text \<open>Storing the answer.\<close>

lemma load_inv_store:
  assumes inv: "load_inv r s" and t: "t < length (callers s)"
    and at: "callers s ! t = Store r'"
  shows "load_inv r (at t LockedReturn
           (s\<lparr>service := (service s)\<lparr>latestAgentVersion := Some (Versions_Latest r')\<rparr>\<rparr>))"
    (is "load_inv r ?s'")
proof -
  have okt: "ok_pc r (latestAgentVersion (service s)) (Store r')"
    using inv t at by (auto simp: load_inv_def)
  then have r': "r' = r" and n: "latestAgentVersion (service s) = None" by simp_all
  have hu: "holders s = {t}" "permits s = 0" using holder_unique[OF inv t] at by simp_all
  have H: "holders ?s' = {t}" using t hu by (simp add: holders_at)
  have "t \<in> fetchers s" using t at by (simp add: in_fetchers)
  moreover have "fetchers s \<subseteq> {t}" using fetchers_subset hu by metis
  ultimately have F0: "fetchers s = {t}" by auto
  have F: "fetchers ?s' = {}" using t F0 by (simp add: fetchers_at)
  have f1: "fetches s = 1" using inv n F0 by (simp add: load_inv_def)
  have O: "\<forall>u<length (callers s). ok_pc r (Some (Versions_Latest r)) (callers ?s' ! u)"
  proof (intro allI impI)
    fix u assume u: "u < length (callers s)"
    show "ok_pc r (Some (Versions_Latest r)) (callers ?s' ! u)"
    proof (cases "u = t")
      case True
      then show ?thesis using t by (simp add: at_def)
    next
      case False
      then have "u \<notin> holders s" using hu by simp
      then have nh: "\<not> holds_permit (callers s ! u)" using u by (simp add: in_holders)
      have "ok_pc r (latestAgentVersion (service s)) (callers s ! u)"
        using inv u by (simp add: load_inv_def)
      then show ?thesis using nh False u ok_pc_other by (simp add: at_def)
    qed
  qed
  show ?thesis using inv hu H F O f1 r' by (simp add: load_inv_def)
qed

text \<open>Releasing the permit.\<close>

lemma load_inv_release:
  assumes inv: "load_inv r s" and t: "t < length (callers s)"
    and at: "callers s ! t = Finally v"
  shows "load_inv r (at t (Returned v) (s\<lparr>permits := permits s + 1\<rparr>))" (is "load_inv r ?s'")
proof -
  have okt: "ok_pc r (latestAgentVersion (service s)) (Finally v)"
    using inv t at by (auto simp: load_inv_def)
  have hu: "holders s = {t}" "permits s = 0" using holder_unique[OF inv t] at by simp_all
  have H: "holders ?s' = {}" using t hu by (simp add: holders_at)
  have "\<not> in_fetch (callers s ! t)" using at by simp
  then have "t \<notin> fetchers s" using t by (simp add: in_fetchers)
  then have F: "fetchers ?s' = fetchers s" using t by (simp add: fetchers_at)
  have O: "\<forall>u<length (callers s). ok_pc r (latestAgentVersion (service s)) (callers ?s' ! u)"
    using inv okt by (simp add: callers_at_nth load_inv_def)
  show ?thesis using inv hu H F O by (simp add: load_inv_def)
qed

lemma load_inv_step:
  assumes inv: "load_inv r s" and step: "step_caller (Inr r) t s = Some s'"
  shows "load_inv r s'"
proof -
  have t: "t < length (callers s)" using step by (auto simp: step_caller_def split: if_splits)
  have okt: "ok_pc r (latestAgentVersion (service s)) (callers s ! t)"
    using inv t by (simp add: load_inv_def)
  have nd: "\<not> disposed (service s)" using inv by (simp add: load_inv_def)
  have fld: "latestAgentVersion (service s) = None \<or>
       latestAgentVersion (service s) = Some (Versions_Latest r)" using inv by (simp add: load_inv_def)
  show ?thesis
  proof (cases "callers s ! t")
    case Entry
    then have "s' = at t (if latestAgentVersion (service s) \<noteq> None then FastReturn else AtWait) s"
      using step t nd by (simp add: step_caller_def)
    then show ?thesis using load_inv_at_same[OF inv t] Entry by simp
  next
    case FastReturn
    then have "s' = at t (Returned (latestAgentVersion (service s))) s"
      using step t by (simp add: step_caller_def)
    moreover have "latestAgentVersion (service s) = Some (Versions_Latest r)"
      using okt fld FastReturn by auto
    ultimately show ?thesis using load_inv_at_same[OF inv t] FastReturn by simp
  next
    case AtWait
    then have "permits s > 0" "s' = at t InTry (s\<lparr>permits := permits s - 1\<rparr>)"
      using step t by (auto simp: step_caller_def split: if_splits)
    then show ?thesis using load_inv_acquire[OF inv t AtWait] by simp
  next
    case InTry
    show ?thesis
    proof (cases "latestAgentVersion (service s) = None")
      case True
      then have "s' = at t Fetching (s\<lparr>fetches := fetches s + 1\<rparr>)"
        using step t InTry by (simp add: step_caller_def)
      then show ?thesis using load_inv_fetch[OF inv t InTry True] by simp
    next
      case False
      then have "s' = at t LockedReturn s" using step t InTry by (simp add: step_caller_def)
      then show ?thesis using load_inv_at_same[OF inv t] InTry False by simp
    qed
  next
    case Fetching
    then have "s' = at t (Store r) s" using step t by (simp add: step_caller_def)
    then show ?thesis using load_inv_at_same[OF inv t] Fetching okt by simp
  next
    case (Store x)
    then have "s' = at t LockedReturn
           (s\<lparr>service := (service s)\<lparr>latestAgentVersion := Some (Versions_Latest x)\<rparr>\<rparr>)"
      using step t by (simp add: step_caller_def)
    then show ?thesis using load_inv_store[OF inv t Store] by simp
  next
    case LockedReturn
    then have "s' = at t (Finally (latestAgentVersion (service s))) s"
      using step t by (simp add: step_caller_def)
    moreover have "latestAgentVersion (service s) = Some (Versions_Latest r)"
      using okt fld LockedReturn by auto
    ultimately show ?thesis using load_inv_at_same[OF inv t] LockedReturn by simp
  next
    case (Finally v)
    have "permits s = 0" using holder_unique[OF inv t] Finally by simp
    then have "s' = at t (Returned v) (s\<lparr>permits := permits s + 1\<rparr>)"
      using step t Finally by (simp add: step_caller_def)
    then show ?thesis using load_inv_release[OF inv t Finally] by simp
  next
    case (FinallyThrow e)
    then show ?thesis using okt by simp
  next
    case (Returned v)
    then show ?thesis using step t by (simp add: step_caller_def)
  next
    case (Thrown e)
    then show ?thesis using step t by (simp add: step_caller_def)
  qed
qed

lemma load_inv_run: "load_inv r s \<Longrightarrow> load_inv r (run (Inr r) sched s)"
proof (induction sched arbitrary: s)
  case Nil
  then show ?case by simp
next
  case (Cons t ts)
  show ?case
  proof (cases "step_caller (Inr r) t s")
    case None
    then show ?thesis using Cons by simp
  next
    case (Some s')
    then show ?thesis using Cons load_inv_step by simp
  qed
qed

lemma run_length: "length (callers (run answer sched s)) = length (callers s)"
proof (induction sched arbitrary: s)
  case Nil
  show ?case by simp
next
  case (Cons t ts)
  show ?case
    by (cases "step_caller answer t s")
       (auto simp: Cons step_caller_def at_def split: if_splits pc.splits sum.splits)
qed


lemma sum_list_update:
  "t < length xs \<Longrightarrow>
   sum_list (map f (xs[t := y])) + f (xs ! t) = sum_list (map f xs) + (f y :: nat)"
proof (induction xs arbitrary: t)
  case Nil
  then show ?case by simp
next
  case (Cons x xs)
  then show ?case by (cases t) (simp_all add: add.assoc add.left_commute)
qed

lemma work_left_at:
  "t < length (callers s) \<Longrightarrow> steps_left l < steps_left (callers s ! t) \<Longrightarrow>
   work_left (at t l s) < work_left s"
  using sum_list_update[of t "callers s" steps_left l]
  by (simp add: work_left_def at_def)

lemma work_left_upd [simp]:
  "work_left (s\<lparr>permits := n\<rparr>) = work_left s" "work_left (s\<lparr>fetches := m\<rparr>) = work_left s"
  "work_left (s\<lparr>service := v\<rparr>) = work_left s"
  by (simp_all add: work_left_def)

lemma callers_upd [simp]:
  "callers (s\<lparr>permits := n\<rparr>) = callers s" "callers (s\<lparr>fetches := m\<rparr>) = callers s"
  "callers (s\<lparr>service := v\<rparr>) = callers s"
  by simp_all

lemma step_work_left:
  assumes "step_caller answer t s = Some s'"
  shows "work_left s' < work_left s"
proof -
  have t: "t < length (callers s)" using assms by (auto simp: step_caller_def split: if_splits)
  show ?thesis
  proof (cases "callers s ! t")
    case Entry
    then show ?thesis using assms t
      by (auto simp: step_caller_def split: if_splits intro!: work_left_at)
  next
    case FastReturn
    then show ?thesis using assms t
      by (auto simp: step_caller_def split: if_splits intro!: work_left_at)
  next
    case AtWait
    then show ?thesis using assms t work_left_at[of t "s\<lparr>permits := permits s - 1\<rparr>" InTry]
      by (auto simp: step_caller_def split: if_splits)
  next
    case InTry
    then show ?thesis using assms t work_left_at[of t s LockedReturn]
        work_left_at[of t "s\<lparr>fetches := fetches s + 1\<rparr>" Fetching]
      by (auto simp: step_caller_def split: if_splits)
  next
    case Fetching
    then show ?thesis using assms t
      by (auto simp: step_caller_def split: if_splits sum.splits intro!: work_left_at)
  next
    case (Store x)
    then show ?thesis using assms t
        work_left_at[of t "s\<lparr>service := (service s)\<lparr>latestAgentVersion := Some (Versions_Latest x)\<rparr>\<rparr>" LockedReturn]
      by (auto simp: step_caller_def split: if_splits)
  next
    case LockedReturn
    then show ?thesis using assms t
      by (auto simp: step_caller_def split: if_splits intro!: work_left_at)
  next
    case (Finally v)
    then show ?thesis using assms t work_left_at[of t "s\<lparr>permits := permits s + 1\<rparr>" "Returned v"]
        work_left_at[of t s "Thrown SemaphoreFullException"]
      by (auto simp: step_caller_def split: if_splits)
  next
    case (FinallyThrow e)
    then show ?thesis using assms t work_left_at[of t "s\<lparr>permits := permits s + 1\<rparr>" "Thrown e"]
        work_left_at[of t s "Thrown SemaphoreFullException"]
      by (auto simp: step_caller_def split: if_splits)
  next
    case (Returned v)
    then show ?thesis using assms t by (simp add: step_caller_def)
  next
    case (Thrown e)
    then show ?thesis using assms t by (simp add: step_caller_def)
  qed
qed

lemma holder_can_step:
  assumes "load_inv r s" "u < length (callers s)" "holds_permit (callers s ! u)"
  shows "\<exists>s'. step_caller (Inr r) u s = Some s'"
proof -
  have "permits s = 0" using holder_unique[OF assms] by simp
  then show ?thesis using assms(2,3)
    by (cases "callers s ! u") (simp_all add: step_caller_def)
qed

lemma progress:
  assumes inv: "load_inv r s" and t: "t < length (callers s)" and nc: "\<not> completed (callers s ! t)"
  shows "\<exists>u<length (callers s). \<exists>s'. step_caller (Inr r) u s = Some s'"
proof (cases "holders s = {}")
  case True
  then have free: "permits s = 1" using inv no_holder_free by simp
  have "\<not> holds_permit (callers s ! t)" using True t in_holders by blast
  then have "\<exists>s'. step_caller (Inr r) t s = Some s'"
    using t nc free by (cases "callers s ! t") (simp_all add: step_caller_def)
  then show ?thesis using t by blast
next
  case False
  then obtain u where "u \<in> holders s" by blast
  then have u: "u < length (callers s)" "holds_permit (callers s ! u)" by (simp_all add: holders_def)
  then show ?thesis using holder_can_step[OF inv u] by blast
qed

section \<open>Conversation titles and the agent cache\<close>

text \<open>
  Claim C9. The one request \<open>CreateConversationAsync\<close> sends to the provider (none when
  the service is disposed) carries the title derived from the first message: the message
  itself when it has at most 50 characters, its first 50 characters followed by \<open>...\<close>
  when it is longer, and no title at all when no first message or an empty one is
  supplied.
\<close>

theorem CreateConversationAsync_title:
  "snd (CreateConversationAsync p firstMessage svc) =
     (if disposed svc then []
      else [CreateProjectConversation
              (case firstMessage of
                 None \<Rightarrow> []
               | Some m \<Rightarrow>
                   if m = [] then []
                   else if length m \<le> 50 then [(''title'', m)]
                   else [(''title'', take 50 m @ ''...'')])])"
  by (auto simp: CreateConversationAsync_def ConversationMetadata_def IsNullOrEmpty_def
      split: option.splits)

theorem CreateConversationAsync_title_witness:
  "snd (CreateConversationAsync (answering [] None)
          (Some ''Please summarise the attached quarterly report for me'') fresh_service)
     = [CreateProjectConversation
          [(''title'', ''Please summarise the attached quarterly report for...'')]] \<and>
   snd (CreateConversationAsync (answering [] None) (Some ''Hello'') fresh_service)
     = [CreateProjectConversation [(''title'', ''Hello'')]] \<and>
   snd (CreateConversationAsync (answering [] None) (Some '''') fresh_service)
     = [CreateProjectConversation []] \<and>
   snd (CreateConversationAsync (answering [] None) None fresh_service)
     = [CreateProjectConversation []]"
  using
    CreateConversationAsync_title[of "answering [] None"
        "Some ''Please summarise the attached quarterly report for me''" fresh_service]
    CreateConversationAsync_title[of "answering [] None" "Some ''Hello''" fresh_service]
    CreateConversationAsync_title[of "answering [] None" "Some ''''" fresh_service]
    CreateConversationAsync_title[of "answering [] None" None fresh_service]
  by (simp add: fresh_service_def)

text \<open>
  Claim C4. Once a call of \<open>GetAgentAsync\<close> has returned a handle, every later call,
  whatever the provider would answer, returns that same handle, makes no remote call and
  leaves the service as it is. When a load attempt fails (the call made the remote fetch
  and raised), the service is left as it was with nothing cached, so the next call makes
  the remote fetch again and returns what the provider answers then.
\<close>

theorem GetAgentAsync_caches_success_only:
  "(fst (GetAgentAsync p svc) = Inr a \<longrightarrow>
      (\<forall>ps. GetAgentAsync_calls ps (fst (snd (GetAgentAsync p svc))) =
              (map (\<lambda>q. (Inr a, [])) ps, fst (snd (GetAgentAsync p svc))))) \<and>
   (fst (GetAgentAsync p svc) = Inl e \<and> snd (snd (GetAgentAsync p svc)) \<noteq> [] \<longrightarrow>
      fst (snd (GetAgentAsync p svc)) = svc \<and> latestAgentVersion svc = None \<and>
      (\<forall>q. snd (snd (GetAgentAsync q (fst (snd (GetAgentAsync p svc))))) =
               [Agents_GetAgent (agentId svc)] \<and>
           fst (GetAgentAsync q (fst (snd (GetAgentAsync p svc)))) =
               map_sum id Versions_Latest (agentFetch q)))"
proof (cases p svc rule: GetAgentAsync_cases)
  case disposed
  then show ?thesis by simp
next
  case (cached b)
  then show ?thesis by (simp add: GetAgentAsync_calls_cached)
next
  case (failed e')
  then show ?thesis by (auto simp: GetAgentAsync_def split: sum.splits)
next
  case (loaded r)
  then show ?thesis by (auto simp: GetAgentAsync_calls_cached)
qed

lemma first_load:
  "GetAgentAsync (answering [] None) fresh_service =
     (Inr (AgentVersion ''v1''), fresh_service\<lparr>latestAgentVersion := Some (AgentVersion ''v1'')\<rparr>,
      [Agents_GetAgent ''agent-1''])"
  by (simp add: GetAgentAsync_def fresh_service_def answering_def)

lemma refused_load:
  "GetAgentAsync unavailable fresh_service =
     (Inl (ProviderException ''unavailable''), fresh_service, [Agents_GetAgent ''agent-1''])"
  by (simp add: GetAgentAsync_def fresh_service_def answering_def unavailable_def)

theorem GetAgentAsync_caches_success_only_witness:
  "fst (GetAgentAsync (answering [] None) fresh_service) = Inr (AgentVersion ''v1'') \<and>
   snd (snd (GetAgentAsync (answering [] None) fresh_service)) = [Agents_GetAgent ''agent-1''] \<and>
   GetAgentAsync_calls [unavailable, answering [] None]
       (fst (snd (GetAgentAsync (answering [] None) fresh_service)))
     = ([(Inr (AgentVersion ''v1''), []), (Inr (AgentVersion ''v1''), [])],
        fresh_service\<lparr>latestAgentVersion := Some (AgentVersion ''v1'')\<rparr>) \<and>
   fst (GetAgentAsync unavailable fresh_service) = Inl (ProviderException ''unavailable'') \<and>
   snd (snd (GetAgentAsync unavailable fresh_service)) \<noteq> [] \<and>
   latestAgentVersion (fst (snd (GetAgentAsync unavailable fresh_service))) = None \<and>
   snd (snd (GetAgentAsync (answering [] None) (fst (snd (GetAgentAsync unavailable fresh_service)))))
     = [Agents_GetAgent ''agent-1'']"
proof -
  have ok: "fst (GetAgentAsync (answering [] None) fresh_service) = Inr (AgentVersion ''v1'')"
    by (simp add: first_load)
  have bad: "fst (GetAgentAsync unavailable fresh_service) = Inl (ProviderException ''unavailable'') \<and>
      snd (snd (GetAgentAsync unavailable fresh_service)) \<noteq> []"
    by (simp add: refused_load)
  have aid: "agentId fresh_service = ''agent-1''" by (simp add: fresh_service_def)
  from ok GetAgentAsync_caches_success_only[of "answering [] None" fresh_service "AgentVersion ''v1''"]
  have "\<forall>ps. GetAgentAsync_calls ps (fst (snd (GetAgentAsync (answering [] None) fresh_service))) =
          (map (\<lambda>q. (Inr (AgentVersion ''v1''), [])) ps,
           fst (snd (GetAgentAsync (answering [] None) fresh_service)))"
    by blast
  then have later: "GetAgentAsync_calls [unavailable, answering [] None]
       (fst (snd (GetAgentAsync (answering [] None) fresh_service)))
     = ([(Inr (AgentVersion ''v1''), []), (Inr (AgentVersion ''v1''), [])],
        fresh_service\<lparr>latestAgentVersion := Some (AgentVersion ''v1'')\<rparr>)"
    by (simp add: first_load)
  from bad GetAgentAsync_caches_success_only[of unavailable fresh_service _
      "ProviderException ''unavailable''"]
  have retry: "latestAgentVersion fresh_service = None \<and>
      (\<forall>q. snd (snd (GetAgentAsync q (fst (snd (GetAgentAsync unavailable fresh_service))))) =
               [Agents_GetAgent (agentId fresh_service)])"
    by blast
  show ?thesis using ok bad later retry by (simp add: first_load refused_load aid)
qed

section \<open>Rejected calls of the streaming operation\<close>

text \<open>
  Claim C7. A call of \<open>StreamMessageAsync\<close> whose message is empty or all white space
  fails: the enumeration ends with an exception, yields no delta, and no streaming call
  is made on the provider.
\<close>

theorem StreamMessageAsync_blank_message:
  assumes "IsNullOrWhiteSpace message"
  shows "fst (StreamMessageAsync p conversationId message imageDataUris svc) = [] \<and>
         (\<exists>e. fst (snd (StreamMessageAsync p conversationId message imageDataUris svc)) = Some e) \<and>
         filter is_streaming_call
           (snd (snd (snd (StreamMessageAsync p conversationId message imageDataUris svc)))) = []"
proof (cases p conversationId message imageDataUris svc rule: StreamMessageAsync_cases)
  case (rejected e svcL calls)
  then show ?thesis by simp
next
  case (opened agent svcL calls userMessage)
  then show ?thesis using assms by simp
qed

theorem StreamMessageAsync_blank_message_witness:
  "IsNullOrWhiteSpace ''  '' \<and>
   StreamMessageAsync (answering [OutputTextDeltaUpdate ''Hi''] None) ''c1'' ''  '' None fresh_service
     = ([], Some ArgumentException_MessageBlank,
        fresh_service\<lparr>latestAgentVersion := Some (AgentVersion ''v1'')\<rparr>,
        [Agents_GetAgent ''agent-1''])"
proof -
  have blank: "IsNullOrWhiteSpace ''  ''" by (simp add: IsNullOrWhiteSpace_def IsWhiteSpace_def)
  have run: "StreamMessageAsync (answering [OutputTextDeltaUpdate ''Hi''] None) ''c1'' ''  '' None fresh_service
     = ([], Some ArgumentException_MessageBlank,
        fresh_service\<lparr>latestAgentVersion := Some (AgentVersion ''v1'')\<rparr>,
        [Agents_GetAgent ''agent-1''])"
    using StreamMessageAsync_blank_message[OF blank,
        of "answering [OutputTextDeltaUpdate ''Hi''] None" "''c1''" None fresh_service]
    by (simp add: StreamMessageAsync_def GetAgentAsync_def fresh_service_def answering_def
        IsNullOrWhiteSpace_def IsWhiteSpace_def)
  show ?thesis using blank run by simp
qed

text \<open>
  Claim C6, as the code has it. A call of \<open>StreamMessageAsync\<close> whose attachment list
  fails validation fails, yields no delta and opens no provider stream. The disposal
  guard, the agent load and the blank-message check come first: the error is the one
  aggregating all validation errors when the service is live, the agent is cached or
  its load succeeds, and the message is not blank; and the agent load is the one remote
  call that precedes the rejection, made exactly when the service is live and no agent is
  cached.
\<close>

theorem StreamMessageAsync_invalid_attachments:
  assumes "ValidateImageDataUris imageDataUris = Inr errs" and "errs \<noteq> []"
  shows "fst (StreamMessageAsync p conversationId message imageDataUris svc) = [] \<and>
         (\<exists>e. fst (snd (StreamMessageAsync p conversationId message imageDataUris svc)) = Some e) \<and>
         filter is_streaming_call
           (snd (snd (snd (StreamMessageAsync p conversationId message imageDataUris svc)))) = [] \<and>
         (\<not> disposed svc \<and> \<not> IsNullOrWhiteSpace message \<and>
          (latestAgentVersion svc \<noteq> None \<or> (\<exists>r. agentFetch p = Inr r)) \<longrightarrow>
            fst (snd (StreamMessageAsync p conversationId message imageDataUris svc)) =
              Some (ArgumentException_InvalidImages errs)) \<and>
         (\<not> disposed svc \<and> latestAgentVersion svc = None \<longrightarrow>
            snd (snd (snd (StreamMessageAsync p conversationId message imageDataUris svc))) =
              [Agents_GetAgent (agentId svc)]) \<and>
         (disposed svc \<or> latestAgentVersion svc \<noteq> None \<longrightarrow>
            snd (snd (snd (StreamMessageAsync p conversationId message imageDataUris svc))) = [])"
  using assms
  by (cases p svc rule: GetAgentAsync_cases) (auto simp: StreamMessageAsync_def BuildUserMessage_def entries_def)

lemma one_bad_attachment: "ValidateImageDataUris (Some [''x'']) = Inr [InvalidDataUriFormat 1]"
  by (simp add: ValidateImageDataUris_def ValidateItem_def StartsWith_def)

theorem StreamMessageAsync_invalid_attachments_witness:
  "ValidateImageDataUris (Some [''x'']) = Inr [InvalidDataUriFormat 1] \<and>
   StreamMessageAsync (answering [OutputTextDeltaUpdate ''Hi''] None) ''c1'' ''hello'' (Some [''x''])
       (fresh_service\<lparr>latestAgentVersion := Some (AgentVersion ''v1'')\<rparr>)
     = ([], Some (ArgumentException_InvalidImages [InvalidDataUriFormat 1]),
        fresh_service\<lparr>latestAgentVersion := Some (AgentVersion ''v1'')\<rparr>, [])"
proof -
  have nonempty: "[InvalidDataUriFormat 1] \<noteq> []" by simp
  have run: "StreamMessageAsync (answering [OutputTextDeltaUpdate ''Hi''] None) ''c1'' ''hello'' (Some [''x''])
       (fresh_service\<lparr>latestAgentVersion := Some (AgentVersion ''v1'')\<rparr>)
     = ([], Some (ArgumentException_InvalidImages [InvalidDataUriFormat 1]),
        fresh_service\<lparr>latestAgentVersion := Some (AgentVersion ''v1'')\<rparr>, [])"
    using StreamMessageAsync_invalid_attachments[OF one_bad_attachment nonempty,
        of "answering [OutputTextDeltaUpdate ''Hi''] None" "''c1''" "''hello''"
           "fresh_service\<lparr>latestAgentVersion := Some (AgentVersion ''v1'')\<rparr>"]
    by (simp add: StreamMessageAsync_def GetAgentAsync_def fresh_service_def answering_def
        IsNullOrWhiteSpace_def IsWhiteSpace_def BuildUserMessage_def entries_def one_bad_attachment)
  show ?thesis using one_bad_attachment run by simp
qed

theorem StreamMessageAsync_invalid_attachments_counterexample:
  "ValidateImageDataUris (Some [''x'']) = Inr [InvalidDataUriFormat 1] \<and>
   fst (snd (StreamMessageAsync (answering [OutputTextDeltaUpdate ''Hi''] None) ''c1'' '' '' (Some [''x''])
              fresh_service))
     = Some ArgumentException_MessageBlank \<and>
   snd (snd (snd (StreamMessageAsync (answering [OutputTextDeltaUpdate ''Hi''] None) ''c1'' ''hello''
                    (Some [''x'']) fresh_service)))
     = [Agents_GetAgent ''agent-1'']"
  by (simp add: StreamMessageAsync_def GetAgentAsync_def fresh_service_def answering_def
      IsNullOrWhiteSpace_def IsWhiteSpace_def BuildUserMessage_def entries_def one_bad_attachment)

section \<open>The usage accessor\<close>

text \<open>
  Claim C8, as the code has it. Each call of \<open>StreamMessageAsync\<close> opens at most one
  provider stream, its own. The captured usage lives in the one field \<open>_lastRunUsage\<close> of
  the service that all calls share: a call that opens no stream, or whose stream delivers
  no completion update, leaves the field as it was; a call whose stream delivers
  completion updates leaves in it the usage of the last of them; and the accessor returns
  the field, that is, the usage of the most recent completion on the service, whichever
  call it came from.
\<close>

theorem lastRunUsage_is_one_shared_slot:
  "length (filter is_streaming_call
      (snd (snd (snd (StreamMessageAsync p conversationId message imageDataUris svc))))) \<le> 1 \<and>
   (filter is_streaming_call
      (snd (snd (snd (StreamMessageAsync p conversationId message imageDataUris svc)))) = [] \<or>
    filter is_completed_update (responseUpdates p) = [] \<longrightarrow>
      lastRunUsage (fst (snd (snd (StreamMessageAsync p conversationId message imageDataUris svc))))
        = lastRunUsage svc) \<and>
   (\<forall>pre u post.
      filter is_streaming_call
        (snd (snd (snd (StreamMessageAsync p conversationId message imageDataUris svc)))) \<noteq> [] \<and>
      responseUpdates p = pre @ CompletedUpdate u # post \<and> filter is_completed_update post = [] \<longrightarrow>
      lastRunUsage (fst (snd (snd (StreamMessageAsync p conversationId message imageDataUris svc))))
        = Some (ExtractUsageInfo u)) \<and>
   GetLastRunUsageAsync (fst (snd (snd (StreamMessageAsync p conversationId message imageDataUris svc)))) =
     (if disposed svc then Inl ObjectDisposedException
      else Inr (lastRunUsage
                  (fst (snd (snd (StreamMessageAsync p conversationId message imageDataUris svc))))))"
proof (cases p conversationId message imageDataUris svc rule: StreamMessageAsync_cases)
  case (rejected e svcL calls)
  then show ?thesis by (simp add: GetLastRunUsageAsync_def)
next
  case (opened agent svcL calls userMessage)
  then show ?thesis
    by (auto simp: GetLastRunUsageAsync_def StreamLoop_disposed StreamLoop_no_completed
        StreamLoop_last_completed)
qed

lemma blank_no: "\<not> IsNullOrWhiteSpace ''first''" "\<not> IsNullOrWhiteSpace ''second''"
  by (simp_all add: IsNullOrWhiteSpace_def IsWhiteSpace_def)

lemma after_A_eq:
  "StreamMessageAsync call_A ''c1'' ''first'' None fresh_service =
     ([''a''], None,
      fresh_service\<lparr>latestAgentVersion := Some (AgentVersion ''v1''),
                    lastRunUsage := Some (ExtractUsageInfo usage_A)\<rparr>,
      [Agents_GetAgent ''agent-1'',
       CreateResponseStreaming (AgentVersion ''v1'') ''c1'' [InputTextPart ''first'']])"
  by (simp add: StreamMessageAsync_def GetAgentAsync_def fresh_service_def answering_def call_A_def
      blank_no BuildUserMessage_def entries_def ValidateImageDataUris_def)

theorem lastRunUsage_is_one_shared_slot_witness:
  "filter is_streaming_call
     (snd (snd (snd (StreamMessageAsync call_A ''c1'' ''first'' None fresh_service)))) \<noteq> [] \<and>
   responseUpdates call_A = [OutputTextDeltaUpdate ''a''] @ CompletedUpdate usage_A # [] \<and>
   lastRunUsage (fst (snd (snd (StreamMessageAsync call_A ''c1'' ''first'' None fresh_service))))
     = Some \<lparr>PromptTokens = 1, CompletionTokens = 2, TotalTokens = 3\<rparr>"
proof -
  have opened: "filter is_streaming_call
     (snd (snd (snd (StreamMessageAsync call_A ''c1'' ''first'' None fresh_service)))) \<noteq> []"
    by (simp add: after_A_eq)
  have ups: "responseUpdates call_A = [OutputTextDeltaUpdate ''a''] @ CompletedUpdate usage_A # []"
    by (simp add: call_A_def answering_def)
  have all: "\<forall>pre u post.
      filter is_streaming_call
        (snd (snd (snd (StreamMessageAsync call_A ''c1'' ''first'' None fresh_service)))) \<noteq> [] \<and>
      responseUpdates call_A = pre @ CompletedUpdate u # post \<and> filter is_completed_update post = [] \<longrightarrow>
      lastRunUsage (fst (snd (snd (StreamMessageAsync call_A ''c1'' ''first'' None fresh_service))))
        = Some (ExtractUsageInfo u)"
    using lastRunUsage_is_one_shared_slot[of call_A "''c1''" "''first''" None fresh_service]
    by blast
  have last: "filter is_completed_update [] = []" by simp
  have "lastRunUsage (fst (snd (snd (StreamMessageAsync call_A ''c1'' ''first'' None fresh_service))))
     = Some (ExtractUsageInfo usage_A)"
    using all opened ups last by blast
  then show ?thesis using opened ups by (simp add: ExtractUsageInfo_def usage_A_def)
qed

theorem lastRunUsage_is_one_shared_slot_counterexample:
  "GetLastRunUsageAsync after_A = Inr (Some \<lparr>PromptTokens = 1, CompletionTokens = 2, TotalTokens = 3\<rparr>) \<and>
   GetLastRunUsageAsync after_B = Inr (Some \<lparr>PromptTokens = 10, CompletionTokens = 20, TotalTokens = 30\<rparr>)"
proof -
  have a: "after_A = fresh_service\<lparr>latestAgentVersion := Some (AgentVersion ''v1''),
                    lastRunUsage := Some (ExtractUsageInfo usage_A)\<rparr>"
    by (simp add: after_A_def after_A_eq)
  have b: "after_B = fresh_service\<lparr>latestAgentVersion := Some (AgentVersion ''v1''),
                    lastRunUsage := Some (ExtractUsageInfo usage_B)\<rparr>"
    unfolding after_B_def a
    by (simp add: StreamMessageAsync_def GetAgentAsync_def fresh_service_def answering_def
        call_B_def blank_no BuildUserMessage_def entries_def ValidateImageDataUris_def)
  show ?thesis unfolding a b
    by (simp add: GetLastRunUsageAsync_def fresh_service_def ExtractUsageInfo_def usage_A_def
        usage_B_def)
qed

section \<open>Frames written by the stream encoder\<close>

lemma not_blank: "\<not> IsNullOrWhiteSpace ''hi''" "\<not> IsNullOrWhiteSpace ''hello''"
  by (simp_all add: IsNullOrWhiteSpace_def IsWhiteSpace_def)

lemma usage_run:
  "fst (StreamEncoder plain_message usage_stream continued_request fresh_service) =
     Inr [ConversationIdEvent ''c1'', ChunkEvent ''Hel'', ChunkEvent ''lo'',
          UsageEvent \<lparr>PromptTokens = 1, CompletionTokens = 2, TotalTokens = 3\<rparr>, DoneEvent]"
  by (simp add: StreamEncoder_def EnsureConversation_def StreamMessageAsync_def GetAgentAsync_def
      BuildUserMessage_def entries_def ValidateImageDataUris_def not_blank fresh_service_def
      answering_def usage_stream_def continued_request_def GetLastRunUsageAsync_def
      ExtractUsageInfo_def usage_A_def)

lemma good_run:
  "fst (StreamEncoder plain_message good_stream continued_request fresh_service) =
     Inr [ConversationIdEvent ''c1'', ChunkEvent ''Hel'', ChunkEvent ''lo'', DoneEvent]"
  by (simp add: StreamEncoder_def EnsureConversation_def StreamMessageAsync_def GetAgentAsync_def
      BuildUserMessage_def entries_def ValidateImageDataUris_def not_blank fresh_service_def
      answering_def good_stream_def continued_request_def GetLastRunUsageAsync_def)

lemma failing_stream_raises:
  "fst (EnsureConversation failing_stream continued_request fresh_service) = Inr ''c1''"
  "StreamMessageAsync failing_stream ''c1'' (Message continued_request)
       (ImageDataUris continued_request) fresh_service =
     ([''Hel''], Some (ProviderException ''connection reset''),
      fresh_service\<lparr>latestAgentVersion := Some (AgentVersion ''v1'')\<rparr>,
      [Agents_GetAgent ''agent-1'',
       CreateResponseStreaming (AgentVersion ''v1'') ''c1'' [InputTextPart ''hi'']])"
  by (simp_all add: EnsureConversation_def StreamMessageAsync_def GetAgentAsync_def
      BuildUserMessage_def entries_def ValidateImageDataUris_def not_blank fresh_service_def
      answering_def failing_stream_def continued_request_def)

lemma timeout_run:
  "fst (EnsureConversation timeout_stream new_chat_request fresh_service) = Inr ''conv-1''"
  "fst (snd (StreamMessageAsync timeout_stream ''conv-1'' (Message new_chat_request)
       (ImageDataUris new_chat_request) fresh_service)) = Some (ProviderException ''timeout'')"
  "fst (StreamEncoder plain_message timeout_stream new_chat_request fresh_service) =
     Inr [ConversationIdEvent ''conv-1'', ChunkEvent ''A'', ChunkEvent ''B'',
          ErrorEvent ''The request could not be completed.'']"
  by (simp_all add: StreamEncoder_def EnsureConversation_def StreamMessageAsync_def GetAgentAsync_def
      BuildUserMessage_def entries_def ValidateImageDataUris_def not_blank fresh_service_def
      answering_def timeout_stream_def new_chat_request_def CreateConversationAsync_def
      ConversationMetadata_def IsNullOrEmpty_def plain_message_def)

text \<open>
  Claim C1. When no conversation can be obtained the encoder produces no event stream.
  Otherwise the stream it produces starts with the \<open>conversationId\<close> frame of the
  conversation, before any chunk, and follows the order of the protocol: the chunks, at
  most one \<open>usage\<close> frame, and last the one terminal frame of the stream, which is \<open>done\<close>
  when the service's stream completed and \<open>error\<close> when it raised; so no \<open>done\<close> follows an
  \<open>error\<close>.
\<close>

theorem StreamEncoder_protocol:
  "(\<forall>e. fst (EnsureConversation p request svc) = Inl e \<longrightarrow>
        fst (StreamEncoder safeMessage p request svc) = Inl e) \<and>
   (\<forall>c. fst (EnsureConversation p request svc) = Inr c \<longrightarrow>
        (\<exists>events rest.
           fst (StreamEncoder safeMessage p request svc) = Inr events \<and>
           events = ConversationIdEvent c # rest \<and>
           spec_stream_protocol
             (fst (snd (StreamMessageAsync p c (Message request) (ImageDataUris request) svc)) = None)
             events \<and>
           length (filter is_usage_event events) \<le> 1 \<and>
           length (filter is_terminal_event events) = 1 \<and>
           is_terminal_event (last events)))"
proof (cases safeMessage p request svc rule: StreamEncoder_cases)
  case (no_conversation e calls)
  then show ?thesis by simp
next
  case (failed c ds e svcL calls)
  then show ?thesis
    by (simp add: spec_stream_protocol_def tail_terminal no_terminal_in_chunks no_usage_in_chunks)
next
  case (succeeded c ds tail svcL calls)
  then show ?thesis
    by (auto simp: spec_stream_protocol_def tail_terminal tail_usage_terminal
        no_terminal_in_chunks no_usage_in_chunks split: option.splits)
qed


theorem StreamEncoder_protocol_witness:
  "fst (EnsureConversation timeout_stream new_chat_request fresh_service) = Inr ''conv-1'' \<and>
   fst (snd (StreamMessageAsync timeout_stream ''conv-1'' (Message new_chat_request)
       (ImageDataUris new_chat_request) fresh_service)) \<noteq> None \<and>
   spec_stream_protocol False
     [ConversationIdEvent ''conv-1'', ChunkEvent ''A'', ChunkEvent ''B'',
      ErrorEvent ''The request could not be completed.''] \<and>
   fst (StreamEncoder plain_message usage_stream continued_request fresh_service) =
     Inr [ConversationIdEvent ''c1'', ChunkEvent ''Hel'', ChunkEvent ''lo'',
          UsageEvent \<lparr>PromptTokens = 1, CompletionTokens = 2, TotalTokens = 3\<rparr>, DoneEvent]"
proof -
  have c: "fst (EnsureConversation timeout_stream new_chat_request fresh_service) = Inr ''conv-1''"
    by (rule timeout_run(1))
  from StreamEncoder_protocol[of timeout_stream new_chat_request fresh_service plain_message] c
  have "\<exists>events rest.
           fst (StreamEncoder plain_message timeout_stream new_chat_request fresh_service) = Inr events \<and>
           events = ConversationIdEvent ''conv-1'' # rest \<and>
           spec_stream_protocol
             (fst (snd (StreamMessageAsync timeout_stream ''conv-1'' (Message new_chat_request)
                  (ImageDataUris new_chat_request) fresh_service)) = None)
             events"
    by blast
  then have "spec_stream_protocol False
     [ConversationIdEvent ''conv-1'', ChunkEvent ''A'', ChunkEvent ''B'',
      ErrorEvent ''The request could not be completed.'']"
    by (simp add: timeout_run)
  then show ?thesis using c usage_run by (simp add: timeout_run)
qed

text \<open>
  Claim C2. When the \<open>conversationId\<close> frame has been written and an exception is raised
  while the encoder iterates the service's stream, the encoder writes one chunk for each
  delta yielded before the exception and then exactly one \<open>error\<close> frame, carrying the
  user-safe message for the exception; the \<open>error\<close> frame is the last frame, so no chunk
  follows it, and no \<open>done\<close> frame is written.
\<close>

theorem StreamEncoder_exception_mid_stream:
  assumes "fst (EnsureConversation p request svc) = Inr c"
    and "fst (snd (StreamMessageAsync p c (Message request) (ImageDataUris request) svc)) = Some e"
  shows "fst (StreamEncoder safeMessage p request svc) =
           Inr (ConversationIdEvent c #
                map ChunkEvent (fst (StreamMessageAsync p c (Message request) (ImageDataUris request) svc)) @
                [ErrorEvent (safeMessage e)]) \<and>
         (\<exists>events. fst (StreamEncoder safeMessage p request svc) = Inr events \<and>
            filter is_error_event events = [ErrorEvent (safeMessage e)] \<and>
            filter (\<lambda>x. x = DoneEvent) events = [] \<and>
            last events = ErrorEvent (safeMessage e))"
  using assms
  by (cases safeMessage p request svc rule: StreamEncoder_cases)
     (auto simp: no_error_in_chunks filter_empty_conv)


theorem StreamEncoder_exception_mid_stream_witness:
  "fst (EnsureConversation failing_stream continued_request fresh_service) = Inr ''c1'' \<and>
   fst (snd (StreamMessageAsync failing_stream ''c1'' (Message continued_request)
       (ImageDataUris continued_request) fresh_service)) = Some (ProviderException ''connection reset'') \<and>
   fst (StreamEncoder plain_message failing_stream continued_request fresh_service) =
     Inr [ConversationIdEvent ''c1'', ChunkEvent ''Hel'',
          ErrorEvent ''The request could not be completed.'']"
proof -
  have c: "fst (EnsureConversation failing_stream continued_request fresh_service) = Inr ''c1''"
    by (rule failing_stream_raises(1))
  have e: "fst (snd (StreamMessageAsync failing_stream ''c1'' (Message continued_request)
       (ImageDataUris continued_request) fresh_service)) = Some (ProviderException ''connection reset'')"
    by (simp add: failing_stream_raises(2))
  from StreamEncoder_exception_mid_stream[OF c e, of plain_message]
  have "fst (StreamEncoder plain_message failing_stream continued_request fresh_service) =
     Inr [ConversationIdEvent ''c1'', ChunkEvent ''Hel'',
          ErrorEvent ''The request could not be completed.'']"
    by (simp add: failing_stream_raises(2) plain_message_def)
  then show ?thesis using c e by simp
qed

section \<open>Concurrent first calls load once\<close>

text \<open>
  Claim C3. \<open>n\<close> callers enter \<open>GetAgentAsync\<close> on a fresh service and the provider
  answers every fetch with the record \<open>r\<close>. In the state reached by any interleaving of
  their steps: at most one remote fetch has been issued; no caller has thrown; every
  caller that has returned holds the handle \<open>Versions_Latest r\<close>, and by then exactly one
  fetch has been issued; and as long as some caller has not completed, some caller can
  take a step, each step using up one of the finitely many steps left; and in a state
  where no caller can move any more, all \<open>n\<close> callers have returned the same handle
  and exactly one fetch has been issued. The callers are live (no disposal, no
  cancellation) and memory is sequentially consistent.
\<close>

theorem GetAgentAsync_single_load:
  "fetches (run (Inr r) sched (first_calls aid n)) \<le> 1 \<and>
   length (callers (run (Inr r) sched (first_calls aid n))) = n \<and>
   (\<forall>t<n. \<forall>e. callers (run (Inr r) sched (first_calls aid n)) ! t \<noteq> Thrown e) \<and>
   (\<forall>t<n. \<forall>v. callers (run (Inr r) sched (first_calls aid n)) ! t = Returned v \<longrightarrow>
        v = Some (Versions_Latest r) \<and> fetches (run (Inr r) sched (first_calls aid n)) = 1) \<and>
   ((\<exists>t<n. \<not> completed (callers (run (Inr r) sched (first_calls aid n)) ! t)) \<longrightarrow>
      (\<exists>u<n. \<exists>s'. step_caller (Inr r) u (run (Inr r) sched (first_calls aid n)) = Some s' \<and>
                  work_left s' < work_left (run (Inr r) sched (first_calls aid n)))) \<and>
   ((\<forall>u<n. step_caller (Inr r) u (run (Inr r) sched (first_calls aid n)) = None) \<longrightarrow>
      (\<forall>t<n. callers (run (Inr r) sched (first_calls aid n)) ! t =
                Returned (Some (Versions_Latest r))) \<and>
      (0 < n \<longrightarrow> fetches (run (Inr r) sched (first_calls aid n)) = 1))"
proof -
  define s where "s = run (Inr r) sched (first_calls aid n)"
  have inv: "load_inv r s" unfolding s_def by (rule load_inv_run[OF load_inv_first_calls])
  have len: "length (callers s) = n" unfolding s_def by (simp add: run_length first_calls_def)
  have ok: "\<And>t. t < n \<Longrightarrow> ok_pc r (latestAgentVersion (service s)) (callers s ! t)"
    using inv len by (simp add: load_inv_def)
  have card: "card (fetchers s) \<le> 1"
  proof -
    have "fetchers s \<subseteq> holders s" by (rule fetchers_subset)
    moreover have "holders s = {} \<or> (\<exists>t. holders s = {t})" using inv by (auto simp: load_inv_def)
    ultimately have "fetchers s = {} \<or> (\<exists>t. fetchers s = {t})"
      by (metis subset_empty subset_singletonD)
    then show ?thesis by auto
  qed
  have f1: "fetches s \<le> 1" using inv card by (cases "latestAgentVersion (service s)") (simp_all add: load_inv_def)
  have thrown: "\<forall>t<n. \<forall>e. callers s ! t \<noteq> Thrown e"
  proof (intro allI impI notI)
    fix t e assume "t < n" "callers s ! t = Thrown e"
    then show False using ok[of t] by simp
  qed
  have returned: "\<forall>t<n. \<forall>v. callers s ! t = Returned v \<longrightarrow> v = Some (Versions_Latest r) \<and> fetches s = 1"
  proof (intro allI impI)
    fix t v assume "t < n" "callers s ! t = Returned v"
    then have "v = Some (Versions_Latest r)" "latestAgentVersion (service s) \<noteq> None"
      using ok[of t] by simp_all
    then show "v = Some (Versions_Latest r) \<and> fetches s = 1" using inv by (simp add: load_inv_def)
  qed
  have prog: "(\<exists>t<n. \<not> completed (callers s ! t)) \<longrightarrow>
      (\<exists>u<n. \<exists>s'. step_caller (Inr r) u s = Some s' \<and> work_left s' < work_left s)"
  proof
    assume "\<exists>t<n. \<not> completed (callers s ! t)"
    then obtain t where "t < length (callers s)" "\<not> completed (callers s ! t)" using len by blast
    from progress[OF inv this] obtain u s' where "u < n" "step_caller (Inr r) u s = Some s'"
      using len by blast
    then show "\<exists>u<n. \<exists>s'. step_caller (Inr r) u s = Some s' \<and> work_left s' < work_left s"
      using step_work_left by blast
  qed
  have quiet: "(\<forall>u<n. step_caller (Inr r) u s = None) \<longrightarrow>
      (\<forall>t<n. callers s ! t = Returned (Some (Versions_Latest r))) \<and> (0 < n \<longrightarrow> fetches s = 1)"
  proof
    assume stuck: "\<forall>u<n. step_caller (Inr r) u s = None"
    have fin: "\<forall>t<n. callers s ! t = Returned (Some (Versions_Latest r)) \<and> fetches s = 1"
    proof (intro allI impI)
      fix t assume t: "t < n"
      have "completed (callers s ! t)"
      proof (rule ccontr)
        assume "\<not> completed (callers s ! t)"
        then obtain u s' where "u < n" "step_caller (Inr r) u s = Some s'" using prog t by blast
        then show False using stuck by simp
      qed
      then obtain v where "callers s ! t = Returned v"
        using thrown t by (cases "callers s ! t") auto
      then show "callers s ! t = Returned (Some (Versions_Latest r)) \<and> fetches s = 1"
        using returned t by blast
    qed
    then show "(\<forall>t<n. callers s ! t = Returned (Some (Versions_Latest r))) \<and> (0 < n \<longrightarrow> fetches s = 1)"
      by blast
  qed
  show ?thesis using f1 len thrown returned prog quiet unfolding s_def by blast
qed

theorem GetAgentAsync_single_load_witness:
  "callers (run (Inr example_record) [0, 1, 0, 1, 0, 0, 1, 0, 0, 0, 0, 1, 1, 1, 1] (first_calls ''agent-1'' 2))
     = [Returned (Some (AgentVersion ''v1'')), Returned (Some (AgentVersion ''v1''))] \<and>
   fetches (run (Inr example_record) [0, 1, 0, 1, 0, 0, 1, 0, 0, 0, 0, 1, 1, 1, 1] (first_calls ''agent-1'' 2)) = 1"
proof -
  define s where
    "s = run (Inr example_record) [0, 1, 0, 1, 0, 0, 1, 0, 0, 0, 0, 1, 1, 1, 1] (first_calls ''agent-1'' 2)"
  have c: "callers s = [Returned (Some (AgentVersion ''v1'')), Returned (Some (AgentVersion ''v1''))]"
    unfolding s_def
    by (simp add: first_calls_def step_caller_def at_def example_record_def numeral_2_eq_2)
  have all: "\<forall>t<2. \<forall>v. callers s ! t = Returned v \<longrightarrow>
        v = Some (Versions_Latest example_record) \<and> fetches s = 1"
    unfolding s_def
    using GetAgentAsync_single_load[of example_record "[0, 1, 0, 1, 0, 0, 1, 0, 0, 0, 0, 1, 1, 1, 1]" "''agent-1''" 2]
    by blast
  have z: "(0::nat) < 2" by simp
  have "callers s ! 0 = Returned (Some (AgentVersion ''v1''))" unfolding c by simp
  with all z have "fetches s = 1" by blast
  with c show ?thesis unfolding s_def by blast
qed


end
